theory Spec2Isabelle
  imports Main "HOL-Library.Word" "HOL-Library.Multiset" "HOL-Library.Signed_Division"
begin

section \<open>The timeout daemon of tcp/internal/timeout\<close>

text \<open>
  This theory embeds \<^verbatim>\<open>src/tcp/internal/timeout/timeout.go\<close>: the \<^verbatim>\<open>Timeout\<close>
  handle with its atomic cancel flag, the \<^verbatim>\<open>heapTimeouts\<close> slice driven by the
  algorithms of Go's \<^verbatim>\<open>container/heap\<close>, and the \<^verbatim>\<open>Daemon\<close> with its worker
  goroutine \<^verbatim>\<open>daemon()\<close> and the client entry points \<^verbatim>\<open>AddTimeout\<close>, \<^verbatim>\<open>Stop\<close>
  and \<^verbatim>\<open>Cancel\<close>.

  The program is concurrent. Each goroutine is given a program counter that names the
  source line it executes next, and one transition of the system is one such line of
  one goroutine, chosen by a scheduler. A blocked operation (\<^verbatim>\<open>Lock\<close> on a held
  mutex, \<^verbatim>\<open>cond.Wait\<close> before a broadcast, a \<^verbatim>\<open>select\<close> with no ready case) is a
  transition that is not enabled. The transitions append what they do to a trace, so
  that the order of lock operations, heap operations and callback invocations can be
  stated.
\<close>

subsection \<open>Monotonic time\<close>

text \<open>
  A \<^verbatim>\<open>time.Time\<close> is modelled by the instant it denotes, in nanoseconds since the
  Unix epoch; \<^verbatim>\<open>After\<close> and \<^verbatim>\<open>Before\<close> compare instants strictly, as the library
  does. A \<^verbatim>\<open>time.Duration\<close> is an \<^verbatim>\<open>int64\<close> of nanoseconds and \<^verbatim>\<open>Time.Sub\<close>
  saturates at its bounds.
\<close>

type_synonym Time = int
type_synonym Duration = int

definition After :: "Time \<Rightarrow> Time \<Rightarrow> bool" where
  "After u v = (v < u)"

definition Before :: "Time \<Rightarrow> Time \<Rightarrow> bool" where
  "Before u v = (u < v)"

definition minDuration :: Duration where
  "minDuration = - (2 ^ 63)"

definition maxDuration :: Duration where
  "maxDuration = 2 ^ 63 - 1"

definition Sub :: "Time \<Rightarrow> Time \<Rightarrow> Duration" where
  "Sub u v =
     (let d = u - v in
      if d < minDuration then minDuration
      else if maxDuration < d then maxDuration
      else d)"

definition Unix :: "int \<Rightarrow> int \<Rightarrow> Time" where
  "Unix sec nsec = sec * 1000000000 + nsec"

text \<open>
  \<^verbatim>\<open>NowMonotonic\<close> reads \<^verbatim>\<open>runtime.nanotime()\<close> and returns
  \<^verbatim>\<open>time.Unix(now/1e9, now%1e9)\<close>; Go's \<^verbatim>\<open>/\<close> and \<^verbatim>\<open>%\<close> truncate towards zero.
  The argument is the reading of the runtime clock.
\<close>

definition NowMonotonic :: "int \<Rightarrow> Time" where
  "NowMonotonic now = Unix (now sdiv 1000000000) (now smod 1000000000)"

subsection \<open>Timeout records\<close>

text \<open>
  \<^verbatim>\<open>type Timeout struct { f func(); t time.Time; cancel uint32 }\<close>. The callback is
  opaque to the daemon, so \<open>f\<close> holds an identifier of the closure. Records live in a
  store and a \<^verbatim>\<open>*Timeout\<close> is an index into it; \<^verbatim>\<open>&Timeout{f: f, t: t}\<close> appends a
  record whose cancel flag is zero.
\<close>

record Timeout =
  f :: nat
  t :: Time
  cancel :: "32 word"

type_synonym ptr = nat

definition new_Timeout :: "nat \<Rightarrow> Time \<Rightarrow> Timeout" where
  "new_Timeout cb deadline = \<lparr>f = cb, t = deadline, cancel = 0\<rparr>"

text \<open>\<^verbatim>\<open>func (t *Timeout) Cancel() { atomic.StoreUint32(&t.cancel, 1) }\<close>\<close>

definition Cancel :: "Timeout list \<Rightarrow> ptr \<Rightarrow> Timeout list" where
  "Cancel st p = st[p := (st ! p)\<lparr>cancel := 1\<rparr>]"

subsection \<open>heapTimeouts and container/heap\<close>

text \<open>
  \<^verbatim>\<open>type heapTimeouts []*Timeout\<close> with the five methods of \<^verbatim>\<open>heap.Interface\<close>.
  \<^verbatim>\<open>Less\<close> dereferences the two pointers, so it takes the store.
\<close>

type_synonym heapTimeouts = "ptr list"

definition Len :: "heapTimeouts \<Rightarrow> nat" where
  "Len h = length h"

definition Less :: "Timeout list \<Rightarrow> heapTimeouts \<Rightarrow> nat \<Rightarrow> nat \<Rightarrow> bool" where
  "Less st h i j = Before (t (st ! (h ! i))) (t (st ! (h ! j)))"

definition Swap :: "heapTimeouts \<Rightarrow> nat \<Rightarrow> nat \<Rightarrow> heapTimeouts" where
  "Swap h i j = h[i := h ! j, j := h ! i]"

definition Push :: "heapTimeouts \<Rightarrow> ptr \<Rightarrow> heapTimeouts" where
  "Push h x = h @ [x]"

definition Pop :: "heapTimeouts \<Rightarrow> ptr \<times> heapTimeouts" where
  "Pop h = (h ! (length h - 1), take (length h - 1) h)"

text \<open>
  The functions \<^verbatim>\<open>up\<close>, \<^verbatim>\<open>down\<close>, \<^verbatim>\<open>Push\<close> and \<^verbatim>\<open>Pop\<close> of the Go standard
  library package \<^verbatim>\<open>container/heap\<close>, which the daemon calls as \<^verbatim>\<open>heap.Push\<close>
  and \<^verbatim>\<open>heap.Pop\<close>:
  \<^verbatim>\<open>
  func up(h Interface, j int) {
      for {
          i := (j - 1) / 2 // parent
          if i == j || !h.Less(j, i) { break }
          h.Swap(i, j)
          j = i
      }
  }
  func down(h Interface, i0, n int) bool {
      i := i0
      for {
          j1 := 2*i + 1
          if j1 >= n || j1 < 0 { break }
          j := j1 // left child
          if j2 := j1 + 1; j2 < n && h.Less(j2, j1) { j = j2 }
          if !h.Less(j, i) { break }
          h.Swap(i, j)
          i = j
      }
      return i > i0
  }
  func Push(h Interface, x any) { h.Push(x); up(h, h.Len()-1) }
  func Pop(h Interface) any { n := h.Len() - 1; h.Swap(0, n); down(h, 0, n); return h.Pop() }
  \<close>
  Indices are natural numbers: for \<open>j = 0\<close> Go's truncating \<^verbatim>\<open>(j - 1) / 2\<close> is \<open>0\<close>, and
  so is \<open>(0 - 1) div 2\<close> on \<open>nat\<close>. The test \<^verbatim>\<open>j1 < 0\<close> guards against overflow of
  \<^verbatim>\<open>int\<close> and never holds for the length of a slice. The boolean that \<^verbatim>\<open>down\<close>
  returns is not used by \<^verbatim>\<open>Pop\<close>. \<^verbatim>\<open>heap.Pop\<close> on an empty heap indexes the slice
  at \<open>-1\<close> in \<^verbatim>\<open>Swap\<close> and panics: the result \<open>None\<close>.
\<close>

function up :: "Timeout list \<Rightarrow> heapTimeouts \<Rightarrow> nat \<Rightarrow> heapTimeouts" where
  "up st h j =
     (let i = (j - 1) div 2 in
      if i = j \<or> \<not> Less st h j i then h
      else up st (Swap h i j) i)"
  by pat_completeness auto
termination
  by (relation "measure (\<lambda>(st, h, j). j)") auto

function down :: "Timeout list \<Rightarrow> heapTimeouts \<Rightarrow> nat \<Rightarrow> nat \<Rightarrow> heapTimeouts" where
  "down st h i n =
     (let j1 = 2 * i + 1 in
      if j1 \<ge> n then h
      else
        let j = (if j1 + 1 < n \<and> Less st h (j1 + 1) j1 then j1 + 1 else j1) in
        if \<not> Less st h j i then h
        else down st (Swap h i j) j n)"
  by pat_completeness auto
termination
  by (relation "measure (\<lambda>(st, h, i, n). n - i)") auto

declare up.simps [simp del] down.simps [simp del]

definition heap_Push :: "Timeout list \<Rightarrow> heapTimeouts \<Rightarrow> ptr \<Rightarrow> heapTimeouts" where
  "heap_Push st h x = (let h1 = Push h x in up st h1 (Len h1 - 1))"

definition heap_Pop :: "Timeout list \<Rightarrow> heapTimeouts \<Rightarrow> (ptr \<times> heapTimeouts) option" where
  "heap_Pop st h =
     (if Len h = 0 then None
      else
        let n = Len h - 1;
            h1 = Swap h 0 n;
            h2 = down st h1 0 n
        in Some (Pop h2))"

text \<open>\<^verbatim>\<open>func (d *Daemon) peek() *Timeout { return d.timeouts[0] }\<close>; indexing an empty
  slice panics.\<close>

definition peek :: "heapTimeouts \<Rightarrow> ptr option" where
  "peek h = (case h of [] \<Rightarrow> None | p # _ \<Rightarrow> Some p)"

subsection \<open>Goroutines, locks and the trace\<close>

datatype tid = Worker | Client nat

datatype lock = Mu | Locker

datatype event =
    EvAcquire tid lock
  | EvRelease tid lock
  | EvPush ptr
  | EvPop ptr
  | EvFireBegin ptr
  | EvFireEnd ptr
  | EvStopCall nat
  | EvStopReturn nat

text \<open>
  The program counter of the worker goroutine \<^verbatim>\<open>daemon()\<close>. \<open>Wn\<close> is the statement at
  line \<open>n\<close> of \<^verbatim>\<open>timeout.go\<close>, about to be executed; the arguments are the live local
  variables (\<^verbatim>\<open>to\<close>, then \<^verbatim>\<open>now\<close>). \<^verbatim>\<open>cond.Wait\<close> (line 174) enqueues the
  goroutine and unlocks the mutex (\<open>W174\<close>), then parks until a broadcast and locks
  again (\<open>W174_parked\<close>). The \<^verbatim>\<open>select\<close> (lines 194 to 197) first evaluates
  \<^verbatim>\<open>time.After(to.t.Sub(now))\<close> (\<open>W194\<close>), then blocks on the two channels
  (\<open>W194_select\<close>, with the instant at which the timer expires). \<open>W233_running\<close> is
  the worker inside the callback \<^verbatim>\<open>to.f()\<close>.
\<close>

datatype wpc =
    W166 | W167 | W168 | W172 | W174 | W174_parked | W175 | W176
  | W188 | W189 ptr | W190 ptr Time | W193 ptr Time | W194 ptr Time | W194_select Time
  | W198 | W199 | W200
  | W205 | W206 ptr | W211 ptr | W212 ptr | W213 ptr | W214 ptr | W215 | W216
  | W230 ptr | W233 ptr | W233_running ptr | W235 | W237
  | W_returned | W_panic

text \<open>
  The program counter of a client goroutine: idle, inside \<^verbatim>\<open>AddTimeout\<close> (\<open>An\<close>, with
  the local \<^verbatim>\<open>to\<close>) or inside \<^verbatim>\<open>Stop\<close> (\<open>Sn\<close>).
\<close>

datatype cpc =
    Idle
  | A149 ptr | A150 ptr | A151 ptr | A156 ptr | A160 ptr | A161 ptr
  | S130 | S131 | S132 | S136 | S140 | S141

text \<open>
  The fields of \<^verbatim>\<open>type Daemon struct\<close>. A mutex is its holder, if any. \<open>cond\<close> tells
  whether the worker sits in the notify list of \<^verbatim>\<open>d.cond\<close>; \<open>wake\<close> is the number of
  elements buffered in the channel made by \<^verbatim>\<open>make(chan struct{}, 1)\<close>.
\<close>

record Daemon =
  locker :: "tid option"
  timeouts :: heapTimeouts
  cond :: bool
  wake :: nat
  stopped :: bool
  mu :: "tid option"

text \<open>
  The whole system: the daemon, the store of \<^verbatim>\<open>Timeout\<close> records, the runtime's
  monotonic clock, the program counters, and the trace (latest event first).
\<close>

record state = Daemon +
  store :: "Timeout list"
  clock :: int
  wpc :: wpc
  clients :: "nat \<Rightarrow> cpc"
  trace :: "event list"

definition emit :: "event \<Rightarrow> state \<Rightarrow> state" where
  "emit e s = s\<lparr>trace := e # trace s\<rparr>"

text \<open>
  \<^verbatim>\<open>NewDaemon(locker)\<close>: a daemon with an empty heap, an empty channel of
  capacity one, and the worker goroutine at the top of its loop.
\<close>

definition NewDaemon :: "int \<Rightarrow> state" where
  "NewDaemon now =
     \<lparr>locker = None, timeouts = [], cond = False, wake = 0, stopped = False, mu = None,
      store = [], clock = now, wpc = W166, clients = (\<lambda>_. Idle), trace = []\<rparr>"

text \<open>\<^verbatim>\<open>d.cond.Broadcast()\<close> empties the notify list.\<close>

definition Broadcast :: "state \<Rightarrow> state" where
  "Broadcast s = s\<lparr>cond := False\<rparr>"

text \<open>\<^verbatim>\<open>select { case d.wake <- struct{}{}: default: }\<close> on a channel of capacity one.\<close>

definition wake_send :: "state \<Rightarrow> state" where
  "wake_send s = (if wake s < 1 then s\<lparr>wake := wake s + 1\<rparr> else s)"

subsection \<open>The worker goroutine\<close>

definition worker_step :: "state \<Rightarrow> state option" where
  "worker_step s =
     (case wpc s of
        W166 \<Rightarrow>
          if mu s = None then Some (emit (EvAcquire Worker Mu) (s\<lparr>mu := Some Worker, wpc := W167\<rparr>))
          else None
      | W167 \<Rightarrow> Some (s\<lparr>wpc := (if stopped s then W168 else W172)\<rparr>)
      | W168 \<Rightarrow> Some (emit (EvRelease Worker Mu) (s\<lparr>mu := None, wpc := W_returned\<rparr>))
      | W172 \<Rightarrow> Some (s\<lparr>wpc := (if Len (timeouts s) = 0 then W174 else W188)\<rparr>)
      | W174 \<Rightarrow>
          Some (emit (EvRelease Worker Mu) (s\<lparr>cond := True, mu := None, wpc := W174_parked\<rparr>))
      | W174_parked \<Rightarrow>
          if \<not> cond s \<and> mu s = None
          then Some (emit (EvAcquire Worker Mu) (s\<lparr>mu := Some Worker, wpc := W175\<rparr>))
          else None
      | W175 \<Rightarrow> Some (s\<lparr>wpc := (if stopped s then W176 else W188)\<rparr>)
      | W176 \<Rightarrow> Some (emit (EvRelease Worker Mu) (s\<lparr>mu := None, wpc := W_returned\<rparr>))
      | W188 \<Rightarrow>
          (case peek (timeouts s) of
             None \<Rightarrow> Some (s\<lparr>wpc := W_panic\<rparr>)
           | Some to \<Rightarrow> Some (s\<lparr>wpc := W189 to\<rparr>))
      | W189 to \<Rightarrow> Some (s\<lparr>wpc := W190 to (NowMonotonic (clock s))\<rparr>)
      | W190 to now \<Rightarrow>
          Some (s\<lparr>wpc := (if After now (t (store s ! to)) then W205 else W193 to now)\<rparr>)
      | W193 to now \<Rightarrow> Some (emit (EvRelease Worker Mu) (s\<lparr>mu := None, wpc := W194 to now\<rparr>))
      | W194 to now \<Rightarrow> Some (s\<lparr>wpc := W194_select (clock s + Sub (t (store s ! to)) now)\<rparr>)
      | W194_select expiry \<Rightarrow> None
      | W198 \<Rightarrow>
          if mu s = None then Some (emit (EvAcquire Worker Mu) (s\<lparr>mu := Some Worker, wpc := W199\<rparr>))
          else None
      | W199 \<Rightarrow> Some (s\<lparr>wpc := (if stopped s then W200 else W188)\<rparr>)
      | W200 \<Rightarrow> Some (emit (EvRelease Worker Mu) (s\<lparr>mu := None, wpc := W_returned\<rparr>))
      | W205 \<Rightarrow>
          (case heap_Pop (store s) (timeouts s) of
             None \<Rightarrow> Some (s\<lparr>wpc := W_panic\<rparr>)
           | Some (to, h) \<Rightarrow> Some (emit (EvPop to) (s\<lparr>timeouts := h, wpc := W206 to\<rparr>)))
      | W206 to \<Rightarrow> Some (s\<lparr>wpc := (if cancel (store s ! to) = 0 then W211 to else W237)\<rparr>)
      | W211 to \<Rightarrow> Some (emit (EvRelease Worker Mu) (s\<lparr>mu := None, wpc := W212 to\<rparr>))
      | W212 to \<Rightarrow>
          if locker s = None
          then Some (emit (EvAcquire Worker Locker) (s\<lparr>locker := Some Worker, wpc := W213 to\<rparr>))
          else None
      | W213 to \<Rightarrow>
          if mu s = None then Some (emit (EvAcquire Worker Mu) (s\<lparr>mu := Some Worker, wpc := W214 to\<rparr>))
          else None
      | W214 to \<Rightarrow> Some (s\<lparr>wpc := (if stopped s then W215 else W230 to)\<rparr>)
      | W215 \<Rightarrow> Some (emit (EvRelease Worker Mu) (s\<lparr>mu := None, wpc := W216\<rparr>))
      | W216 \<Rightarrow> Some (emit (EvRelease Worker Locker) (s\<lparr>locker := None, wpc := W_returned\<rparr>))
      | W230 to \<Rightarrow> Some (s\<lparr>wpc := (if cancel (store s ! to) = 0 then W233 to else W235)\<rparr>)
      | W233 to \<Rightarrow> Some (emit (EvFireBegin to) (s\<lparr>wpc := W233_running to\<rparr>))
      | W233_running to \<Rightarrow> Some (emit (EvFireEnd to) (s\<lparr>wpc := W235\<rparr>))
      | W235 \<Rightarrow> Some (emit (EvRelease Worker Locker) (s\<lparr>locker := None, wpc := W237\<rparr>))
      | W237 \<Rightarrow> Some (emit (EvRelease Worker Mu) (s\<lparr>mu := None, wpc := W166\<rparr>))
      | W_returned \<Rightarrow> None
      | W_panic \<Rightarrow> None)"

text \<open>
  The two cases of the \<^verbatim>\<open>select\<close> at line 194: the timer channel delivers once
  the clock has reached the expiry; the wake channel delivers a buffered element.
\<close>

definition timer_step :: "state \<Rightarrow> state option" where
  "timer_step s =
     (case wpc s of
        W194_select expiry \<Rightarrow> if expiry \<le> clock s then Some (s\<lparr>wpc := W198\<rparr>) else None
      | _ \<Rightarrow> None)"

definition wake_step :: "state \<Rightarrow> state option" where
  "wake_step s =
     (case wpc s of
        W194_select expiry \<Rightarrow> if 0 < wake s then Some (s\<lparr>wake := wake s - 1, wpc := W198\<rparr>) else None
      | _ \<Rightarrow> None)"

subsection \<open>Client goroutines\<close>

definition set_cpc :: "nat \<Rightarrow> cpc \<Rightarrow> state \<Rightarrow> state" where
  "set_cpc c pc s = s\<lparr>clients := (clients s)(c := pc)\<rparr>"

text \<open>
  The next statement of client \<open>c\<close> inside \<^verbatim>\<open>AddTimeout\<close> (lines 149 to 161) or
  \<^verbatim>\<open>Stop\<close> (lines 130 to 141).
\<close>

definition client_step :: "nat \<Rightarrow> state \<Rightarrow> state option" where
  "client_step c s =
     (case clients s c of
        Idle \<Rightarrow> None
      | A149 to \<Rightarrow>
          if mu s = None
          then Some (emit (EvAcquire (Client c) Mu) (set_cpc c (A150 to) (s\<lparr>mu := Some (Client c)\<rparr>)))
          else None
      | A150 to \<Rightarrow>
          Some (emit (EvPush to) (set_cpc c (A151 to) (s\<lparr>timeouts := heap_Push (store s) (timeouts s) to\<rparr>)))
      | A151 to \<Rightarrow> Some (set_cpc c (A156 to) (if Len (timeouts s) = 1 then Broadcast s else s))
      | A156 to \<Rightarrow> Some (set_cpc c (A160 to) (wake_send s))
      | A160 to \<Rightarrow> Some (emit (EvRelease (Client c) Mu) (set_cpc c (A161 to) (s\<lparr>mu := None\<rparr>)))
      | A161 to \<Rightarrow> Some (set_cpc c Idle s)
      | S130 \<Rightarrow>
          if mu s = None
          then Some (emit (EvAcquire (Client c) Mu) (set_cpc c S131 (s\<lparr>mu := Some (Client c)\<rparr>)))
          else None
      | S131 \<Rightarrow> Some (set_cpc c S132 (s\<lparr>stopped := True\<rparr>))
      | S132 \<Rightarrow> Some (set_cpc c S136 (if Len (timeouts s) = 0 then Broadcast s else s))
      | S136 \<Rightarrow> Some (set_cpc c S140 (wake_send s))
      | S140 \<Rightarrow> Some (emit (EvRelease (Client c) Mu) (set_cpc c S141 (s\<lparr>mu := None\<rparr>)))
      | S141 \<Rightarrow> Some (emit (EvStopReturn c) (set_cpc c Idle s)))"

text \<open>
  What an idle client may begin: \<^verbatim>\<open>d.AddTimeout(f, t)\<close>, whose first statement (line 148)
  allocates the record; \<^verbatim>\<open>d.Stop()\<close>; \<^verbatim>\<open>to.Cancel()\<close> on an allocated record, which
  is one atomic store; and \<^verbatim>\<open>Lock\<close> and \<^verbatim>\<open>Unlock\<close> of the mutex it passed to
  \<^verbatim>\<open>NewDaemon\<close>. A callback that cancels a timeout while it runs is a \<open>CallCancel\<close>
  between \<open>EvFireBegin\<close> and \<open>EvFireEnd\<close>.
\<close>

datatype call = CallAddTimeout nat Time | CallStop | CallCancel ptr | CallLock | CallUnlock

definition call_step :: "nat \<Rightarrow> call \<Rightarrow> state \<Rightarrow> state option" where
  "call_step c k s =
     (if clients s c \<noteq> Idle then None
      else case k of
        CallAddTimeout cb deadline \<Rightarrow>
          Some (set_cpc c (A149 (length (store s))) (s\<lparr>store := store s @ [new_Timeout cb deadline]\<rparr>))
      | CallStop \<Rightarrow> Some (emit (EvStopCall c) (set_cpc c S130 s))
      | CallCancel p \<Rightarrow> if p < length (store s) then Some (s\<lparr>store := Cancel (store s) p\<rparr>) else None
      | CallLock \<Rightarrow>
          if locker s = None then Some (emit (EvAcquire (Client c) Locker) (s\<lparr>locker := Some (Client c)\<rparr>))
          else None
      | CallUnlock \<Rightarrow>
          if locker s = Some (Client c) then Some (emit (EvRelease (Client c) Locker) (s\<lparr>locker := None\<rparr>))
          else None)"

subsection \<open>The system\<close>

text \<open>
  A scheduler picks the next transition: a statement of the worker, one of the two
  cases of its \<^verbatim>\<open>select\<close>, the passing of time, a call begun by an idle client, or
  the next statement of a client inside a call.
\<close>

datatype action = AWorker | ATimer | AWake | ATick nat | ACall nat call | AClient nat

fun step :: "action \<Rightarrow> state \<Rightarrow> state option" where
  "step AWorker s = worker_step s"
| "step ATimer s = timer_step s"
| "step AWake s = wake_step s"
| "step (ATick n) s = Some (s\<lparr>clock := clock s + int n\<rparr>)"
| "step (ACall c k) s = call_step c k s"
| "step (AClient c) s = client_step c s"

fun run :: "action list \<Rightarrow> state \<Rightarrow> state option" where
  "run [] s = Some s"
| "run (a # as) s = (case step a s of None \<Rightarrow> None | Some s' \<Rightarrow> run as s')"

inductive reachable :: "state \<Rightarrow> bool" where
  init: "reachable (NewDaemon now)"
| step: "reachable s \<Longrightarrow> step a s = Some s' \<Longrightarrow> reachable s'"

text \<open>
  \<open>precedes a b tr\<close>: in the trace \<open>tr\<close> (latest event first) an occurrence of \<open>a\<close> is
  earlier than an occurrence of \<open>b\<close>.
\<close>

fun precedes :: "event \<Rightarrow> event \<Rightarrow> event list \<Rightarrow> bool" where
  "precedes a b [] = False"
| "precedes a b (e # tr) = ((e = b \<and> a \<in> set tr) \<or> precedes a b tr)"

subsection \<open>Predicates used in the proofs\<close>

text \<open>The deadline of the record at index \<open>i\<close> of the heap.\<close>

definition key :: "Timeout list \<Rightarrow> heapTimeouts \<Rightarrow> nat \<Rightarrow> Time" where
  "key st h i = t (st ! (h ! i))"

text \<open>The heap condition on the first \<open>n\<close> elements: no element is before its parent.\<close>

definition heap_ok :: "Timeout list \<Rightarrow> heapTimeouts \<Rightarrow> nat \<Rightarrow> bool" where
  "heap_ok st h n = (\<forall>k. 0 < k \<and> k < n \<longrightarrow> key st h ((k - 1) div 2) \<le> key st h k)"

text \<open>The program points at which a goroutine holds \<^verbatim>\<open>d.mu\<close>.\<close>

fun wholds :: "wpc \<Rightarrow> bool" where
  "wholds W166 = False"
| "wholds W174_parked = False"
| "wholds (W194 to now) = False"
| "wholds (W194_select e) = False"
| "wholds W198 = False"
| "wholds (W212 to) = False"
| "wholds (W213 to) = False"
| "wholds W216 = False"
| "wholds W_returned = False"
| "wholds pc = True"

fun cholds :: "cpc \<Rightarrow> bool" where
  "cholds (A150 to) = True"
| "cholds (A151 to) = True"
| "cholds (A156 to) = True"
| "cholds (A160 to) = True"
| "cholds S131 = True"
| "cholds S132 = True"
| "cholds S136 = True"
| "cholds S140 = True"
| "cholds pc = False"

definition inv_mu :: "state \<Rightarrow> bool" where
  "inv_mu s =
     ((wholds (wpc s) \<longrightarrow> mu s = Some Worker) \<and>
      (\<forall>c. cholds (clients s c) \<longrightarrow> mu s = Some (Client c)))"

text \<open>
  The program points of the inner loop (lines 181 to 205), and what the worker knows
  about the heap after \<^verbatim>\<open>d.cond.Wait()\<close> has been woken.
\<close>

fun in_loop :: "wpc \<Rightarrow> bool" where
  "in_loop W188 = True"
| "in_loop (W189 to) = True"
| "in_loop (W190 to now) = True"
| "in_loop (W193 to now) = True"
| "in_loop (W194 to now) = True"
| "in_loop (W194_select e) = True"
| "in_loop W198 = True"
| "in_loop W199 = True"
| "in_loop W205 = True"
| "in_loop pc = False"

fun after_stopped :: "cpc \<Rightarrow> bool" where
  "after_stopped S132 = True"
| "after_stopped S136 = True"
| "after_stopped S140 = True"
| "after_stopped S141 = True"
| "after_stopped pc = False"

definition inv_wait :: "state \<Rightarrow> bool" where
  "inv_wait s =
     ((\<forall>c. after_stopped (clients s c) \<longrightarrow> stopped s) \<and>
      (in_loop (wpc s) \<longrightarrow> timeouts s \<noteq> []) \<and>
      (wpc s = W175 \<or> (wpc s = W174_parked \<and> \<not> cond s) \<longrightarrow> timeouts s \<noteq> [] \<or> stopped s) \<and>
      wpc s \<noteq> W_panic)"

text \<open>The local variable \<^verbatim>\<open>to\<close> of the worker and of a client inside \<^verbatim>\<open>AddTimeout\<close>.\<close>

fun wptr :: "wpc \<Rightarrow> ptr option" where
  "wptr (W189 to) = Some to"
| "wptr (W190 to now) = Some to"
| "wptr (W193 to now) = Some to"
| "wptr (W194 to now) = Some to"
| "wptr (W206 to) = Some to"
| "wptr (W211 to) = Some to"
| "wptr (W212 to) = Some to"
| "wptr (W213 to) = Some to"
| "wptr (W214 to) = Some to"
| "wptr (W230 to) = Some to"
| "wptr (W233 to) = Some to"
| "wptr (W233_running to) = Some to"
| "wptr pc = None"

fun cptr :: "cpc \<Rightarrow> ptr option" where
  "cptr (A149 to) = Some to"
| "cptr (A150 to) = Some to"
| "cptr (A151 to) = Some to"
| "cptr (A156 to) = Some to"
| "cptr (A160 to) = Some to"
| "cptr (A161 to) = Some to"
| "cptr pc = None"

definition inv_ptr :: "state \<Rightarrow> bool" where
  "inv_ptr s =
     ((\<forall>p \<in> set (timeouts s). p < length (store s)) \<and>
      (\<forall>p. wptr (wpc s) = Some p \<longrightarrow> p < length (store s)) \<and>
      (\<forall>c p. cptr (clients s c) = Some p \<longrightarrow> p < length (store s)))"

text \<open>The record popped in the current iteration of the worker (lines 205 to 233).\<close>

fun popped :: "wpc \<Rightarrow> ptr option" where
  "popped (W206 to) = Some to"
| "popped (W211 to) = Some to"
| "popped (W212 to) = Some to"
| "popped (W213 to) = Some to"
| "popped (W214 to) = Some to"
| "popped (W230 to) = Some to"
| "popped (W233 to) = Some to"
| "popped (W233_running to) = Some to"
| "popped pc = None"

definition inv_deadline :: "state \<Rightarrow> bool" where
  "inv_deadline s =
     ((\<forall>p. wpc s = W189 p \<longrightarrow> timeouts s ! 0 = p) \<and>
      (\<forall>p now. wpc s = W190 p now \<longrightarrow> timeouts s ! 0 = p \<and> now \<le> clock s) \<and>
      (wpc s = W205 \<longrightarrow> t (store s ! (timeouts s ! 0)) < clock s) \<and>
      (\<forall>p. popped (wpc s) = Some p \<longrightarrow> t (store s ! p) < clock s))"

text \<open>Between the test of \<^verbatim>\<open>d.stopped\<close> at line 214 and the callback.\<close>

fun nostop :: "wpc \<Rightarrow> bool" where
  "nostop (W230 to) = True"
| "nostop (W233 to) = True"
| "nostop pc = False"

definition inv_stop :: "state \<Rightarrow> bool" where
  "inv_stop s =
     ((\<forall>c. EvStopReturn c \<in> set (trace s) \<longrightarrow> stopped s) \<and>
      (nostop (wpc s) \<longrightarrow> \<not> stopped s))"

definition inv_heap :: "state \<Rightarrow> bool" where
  "inv_heap s = heap_ok (store s) (timeouts s) (length (timeouts s))"

text \<open>The record of the latest \<open>EvPop\<close> of a trace.\<close>

fun last_pop :: "event list \<Rightarrow> ptr option" where
  "last_pop [] = None"
| "last_pop (EvPop p # tr) = Some p"
| "last_pop (e # tr) = last_pop tr"

text \<open>A record allocated by \<^verbatim>\<open>AddTimeout\<close> and not yet pushed; a record popped and
  not yet fired.\<close>

fun pending :: "cpc \<Rightarrow> ptr option" where
  "pending (A149 to) = Some to"
| "pending (A150 to) = Some to"
| "pending pc = None"

fun prefire :: "wpc \<Rightarrow> ptr option" where
  "prefire (W206 to) = Some to"
| "prefire (W211 to) = Some to"
| "prefire (W212 to) = Some to"
| "prefire (W213 to) = Some to"
| "prefire (W214 to) = Some to"
| "prefire (W230 to) = Some to"
| "prefire (W233 to) = Some to"
| "prefire pc = None"

definition inv_once :: "state \<Rightarrow> bool" where
  "inv_once s =
     (distinct (timeouts s) \<and>
      (\<forall>p. p \<in> set (timeouts s) \<longleftrightarrow> EvPush p \<in> set (trace s) \<and> EvPop p \<notin> set (trace s)) \<and>
      (\<forall>p. EvPush p \<in> set (trace s) \<longrightarrow> p < length (store s)) \<and>
      (\<forall>p. EvPop p \<in> set (trace s) \<longrightarrow> EvPush p \<in> set (trace s)) \<and>
      (\<forall>p. EvFireBegin p \<in> set (trace s) \<longrightarrow> EvPop p \<in> set (trace s)) \<and>
      (\<forall>p. popped (wpc s) = Some p \<longrightarrow> last_pop (trace s) = Some p) \<and>
      (\<forall>p. prefire (wpc s) = Some p \<longrightarrow> EvFireBegin p \<notin> set (trace s)) \<and>
      (\<forall>c p. pending (clients s c) = Some p \<longrightarrow> EvPush p \<notin> set (trace s)) \<and>
      (\<forall>c c' p. c \<noteq> c' \<and> pending (clients s c) = Some p \<longrightarrow> pending (clients s c') \<noteq> Some p))"

definition inv_count :: "state \<Rightarrow> bool" where
  "inv_count s =
     (\<forall>p. count_list (trace s) (EvPush p) \<le> 1 \<and>
          count_list (trace s) (EvPop p) \<le> 1 \<and>
          count_list (trace s) (EvFireBegin p) \<le> 1)"

text \<open>The worker has returned, or is about to after it found \<^verbatim>\<open>d.stopped\<close> at
  line 214.\<close>

fun halted :: "wpc \<Rightarrow> bool" where
  "halted W215 = True"
| "halted W216 = True"
| "halted W_returned = True"
| "halted pc = False"

definition inv_seq :: "state \<Rightarrow> bool" where
  "inv_seq s =
     ((\<forall>r. EvFireBegin r \<in> set (trace s) \<longrightarrow> EvFireEnd r \<in> set (trace s) \<or> wpc s = W233_running r) \<and>
      (\<forall>r. EvPop r \<in> set (trace s) \<and> cancel (store s ! r) = 0 \<longrightarrow>
           EvFireEnd r \<in> set (trace s) \<or> popped (wpc s) = Some r \<or> halted (wpc s)))"

definition inv_order :: "state \<Rightarrow> bool" where
  "inv_order s =
     (\<forall>r1 r2. precedes (EvPush r1) (EvPop r2) (trace s) \<and> t (store s ! r1) < t (store s ! r2) \<longrightarrow>
        EvPop r1 \<in> set (trace s) \<and> popped (wpc s) \<noteq> Some r1)"

definition inv_fire_order :: "state \<Rightarrow> bool" where
  "inv_fire_order s =
     (\<forall>r1 r2. t (store s ! r1) < t (store s ! r2) \<and> precedes (EvPush r1) (EvPop r2) (trace s) \<and>
        cancel (store s ! r1) = 0 \<and> EvFireBegin r2 \<in> set (trace s) \<longrightarrow>
        precedes (EvFireEnd r1) (EvFireBegin r2) (trace s))"

text \<open>
  The locks the worker has released since the latest return of a callback, in the
  order of their release; \<open>None\<close> when no callback has returned.
\<close>

fun released_since_fire :: "event list \<Rightarrow> lock list option" where
  "released_since_fire [] = None"
| "released_since_fire (EvFireEnd p # tr) = Some []"
| "released_since_fire (EvRelease Worker l # tr) =
     map_option (\<lambda>ls. ls @ [l]) (released_since_fire tr)"
| "released_since_fire (e # tr) = released_since_fire tr"

definition inv_release :: "state \<Rightarrow> bool" where
  "inv_release s =
     (\<forall>ls. released_since_fire (trace s) = Some ls \<longrightarrow>
        (wpc s = W235 \<and> ls = []) \<or> (wpc s = W237 \<and> ls = [Locker]) \<or>
        (\<exists>rest. ls = Locker # Mu # rest))"

definition inv_alloc :: "state \<Rightarrow> bool" where
  "inv_alloc s =
     (\<forall>p < length (store s). (\<exists>c. pending (clients s c) = Some p) \<or> EvPush p \<in> set (trace s))"

text \<open>A sequence of \<^verbatim>\<open>heap.Push\<close> and \<^verbatim>\<open>heap.Pop\<close> calls on a heap.\<close>

datatype heap_op = OpPush ptr | OpPop

fun heap_run :: "Timeout list \<Rightarrow> heap_op list \<Rightarrow> heapTimeouts \<Rightarrow> heapTimeouts option" where
  "heap_run st [] h = Some h"
| "heap_run st (OpPush x # ops) h = heap_run st ops (heap_Push st h x)"
| "heap_run st (OpPop # ops) h =
     (case heap_Pop st h of None \<Rightarrow> None | Some (p, h') \<Rightarrow> heap_run st ops h')"

subsection \<open>Schedules\<close>

text \<open>
  Concrete schedules, run from \<open>NewDaemon 0\<close>. In \<open>sc_added\<close> the worker finds the heap
  empty and parks in \<^verbatim>\<open>cond.Wait\<close>; client 0 then calls
  \<^verbatim>\<open>AddTimeout(f7, 5)\<close> and the clock advances to 10. The later schedules let the
  worker go on: to line 188, to line 205, to the callback at line 233, into the
  callback, and to the end of the iteration.
\<close>

definition sc_added :: "action list" where
  "sc_added =
     [AWorker, AWorker, AWorker, AWorker,
      ACall 0 (CallAddTimeout 7 5), AClient 0, AClient 0, AClient 0, AClient 0, AClient 0, AClient 0,
      ATick 10]"

definition sc_at188 :: "action list" where
  "sc_at188 = sc_added @ [AWorker, AWorker]"

definition sc_at205 :: "action list" where
  "sc_at205 = sc_at188 @ [AWorker, AWorker, AWorker]"

definition sc_at211 :: "action list" where
  "sc_at211 = sc_at205 @ [AWorker, AWorker]"

definition sc_at233 :: "action list" where
  "sc_at233 = sc_at211 @ [AWorker, AWorker, AWorker, AWorker, AWorker]"

definition sc_running :: "action list" where
  "sc_running = sc_at233 @ [AWorker]"

definition sc_done :: "action list" where
  "sc_done = sc_running @ [AWorker, AWorker, AWorker]"

text \<open>
  The worker has popped the record and released \<^verbatim>\<open>d.mu\<close> at line 211; client 1 then
  runs \<^verbatim>\<open>Stop()\<close> from its call to its return; the worker then executes line 212.
\<close>

definition sc_stop_race :: "action list" where
  "sc_stop_race =
     sc_at211 @ [AWorker,
       ACall 1 CallStop, AClient 1, AClient 1, AClient 1, AClient 1, AClient 1, AClient 1,
       AWorker]"

text \<open>Client 1 calls \<^verbatim>\<open>Stop()\<close> while the callback runs.\<close>

definition sc_stop_in_callback :: "action list" where
  "sc_stop_in_callback = sc_running @ [ACall 1 CallStop]"

text \<open>
  After the first record (deadline 5) has fired, client 0 adds a second one with the
  earlier deadline 3; the worker fires it in its next iteration.
\<close>

definition sc_late :: "action list" where
  "sc_late =
     sc_done @
     [ACall 0 (CallAddTimeout 8 3), AClient 0, AClient 0, AClient 0, AClient 0, AClient 0, AClient 0,
      AWorker, AWorker, AWorker, AWorker, AWorker, AWorker, AWorker, AWorker,
      AWorker, AWorker, AWorker, AWorker, AWorker, AWorker, AWorker]"

text \<open>
  Two records are added before the worker runs: record 0 with deadline 5, then record 1
  with deadline 3. At time 10 the worker runs two full iterations.
\<close>

definition sc_two_pushed :: "action list" where
  "sc_two_pushed =
     [ACall 0 (CallAddTimeout 7 5), AClient 0, AClient 0, AClient 0, AClient 0, AClient 0, AClient 0,
      ACall 0 (CallAddTimeout 8 3), AClient 0, AClient 0, AClient 0, AClient 0, AClient 0, AClient 0,
      ATick 10]"

definition sc_two :: "action list" where
  "sc_two =
     sc_two_pushed @
     [AWorker, AWorker, AWorker, AWorker, AWorker, AWorker, AWorker, AWorker, AWorker,
      AWorker, AWorker, AWorker, AWorker, AWorker, AWorker, AWorker, AWorker,
      AWorker, AWorker, AWorker, AWorker, AWorker, AWorker, AWorker, AWorker,
      AWorker, AWorker, AWorker, AWorker, AWorker, AWorker, AWorker]"

text \<open>
  A record with deadline 10 is added; the clock advances to exactly 10; the worker
  peeks and reads the clock, and stands at the test of line 190.
\<close>

definition sc_equal :: "action list" where
  "sc_equal =
     [ACall 0 (CallAddTimeout 7 10), AClient 0, AClient 0, AClient 0, AClient 0, AClient 0, AClient 0,
      ATick 10,
      AWorker, AWorker, AWorker, AWorker, AWorker]"

section \<open>Properties of the heap\<close>

lemma parent_less: "0 < k \<Longrightarrow> (k - 1) div 2 < (k::nat)"
  by arith

lemma length_Swap [simp]: "length (Swap h i j) = length h"
  by (simp add: Swap_def)

lemma key_Swap:
  "i < length h \<Longrightarrow> j < length h \<Longrightarrow>
   key st (Swap h i j) k = (if k = j then key st h i else if k = i then key st h j else key st h k)"
  by (auto simp: key_def Swap_def nth_list_update)

lemma mset_Swap: "i < length h \<Longrightarrow> j < length h \<Longrightarrow> mset (Swap h i j) = mset h"
  by (simp add: Swap_def mset_swap)

lemma length_up [simp]: "length (up st h j) = length h"
proof (induction st h j rule: up.induct)
  case (1 st h j)
  show ?case
    using "1" by (subst up.simps) (simp add: Let_def)
qed

lemma mset_up: "j < length h \<Longrightarrow> mset (up st h j) = mset h"
proof (induction st h j rule: up.induct)
  case (1 st h j)
  show ?case
  proof (cases "(j - 1) div 2 = j \<or> \<not> Less st h j ((j - 1) div 2)")
    case True
    then show ?thesis by (subst up.simps) (simp add: Let_def)
  next
    case False
    have lt: "(j - 1) div 2 < length h" using "1.prems" by simp
    have "mset (up st (Swap h ((j - 1) div 2) j) ((j - 1) div 2)) = mset (Swap h ((j - 1) div 2) j)"
      using "1.IH" [OF refl] False lt by simp
    then show ?thesis
      using False lt "1.prems" by (subst up.simps) (simp add: Let_def mset_Swap)
  qed
qed

lemma up_ok:
  "j < length h \<Longrightarrow>
   (\<forall>k. 0 < k \<and> k < length h \<and> k \<noteq> j \<longrightarrow> key st h ((k - 1) div 2) \<le> key st h k) \<Longrightarrow>
   (\<forall>k. 0 < j \<and> k < length h \<and> 0 < k \<and> (k - 1) div 2 = j \<longrightarrow> key st h ((j - 1) div 2) \<le> key st h k) \<Longrightarrow>
   heap_ok st (up st h j) (length h)"
proof (induction st h j rule: up.induct)
  case (1 st h j)
  let ?i = "(j - 1) div 2"
  show ?case
  proof (cases "?i = j \<or> \<not> Less st h j ?i")
    case True
    have "heap_ok st h (length h)"
      unfolding heap_ok_def
    proof (intro allI impI)
      fix k assume k: "0 < k \<and> k < length h"
      show "key st h ((k - 1) div 2) \<le> key st h k"
      proof (cases "k = j")
        case False
        then show ?thesis using "1.prems"(2) k by blast
      next
        case kj: True
        with k have "?i \<noteq> j" by auto
        with True have "\<not> Less st h j ?i" by simp
        then show ?thesis using kj by (simp add: Less_def Before_def key_def)
      qed
    qed
    with True show ?thesis by (subst up.simps) (simp add: Let_def)
  next
    case False
    then have ij: "?i \<noteq> j" and less: "key st h j < key st h ?i"
      by (auto simp: Less_def Before_def key_def)
    have jpos: "0 < j" using ij by (cases j) auto
    have ilt: "?i < j" using jpos by auto
    have il: "?i < length h" using ilt "1.prems"(1) by simp
    let ?h = "Swap h ?i j"
    have A: "\<forall>k. 0 < k \<and> k < length ?h \<and> k \<noteq> ?i \<longrightarrow> key st ?h ((k - 1) div 2) \<le> key st ?h k"
    proof (intro allI impI)
      fix k assume k: "0 < k \<and> k < length ?h \<and> k \<noteq> ?i"
      then have kl: "k < length h" by simp
      have pl: "(k - 1) div 2 < k" using k by auto
      show "key st ?h ((k - 1) div 2) \<le> key st ?h k"
      proof (cases "k = j")
        case True
        then show ?thesis using less il "1.prems"(1) ij by (simp add: key_Swap)
      next
        case kj: False
        have old: "key st h ((k - 1) div 2) \<le> key st h k" using "1.prems"(2) k kj kl by blast
        show ?thesis
        proof (cases "(k - 1) div 2 = j")
          case True
          have "key st h ?i \<le> key st h k" using "1.prems"(3) jpos kl k True by blast
          then show ?thesis using True kj k il "1.prems"(1) ij by (simp add: key_Swap)
        next
          case pj: False
          show ?thesis
          proof (cases "(k - 1) div 2 = ?i")
            case True
            then show ?thesis using old less kj k il "1.prems"(1) ij pj by (simp add: key_Swap)
          next
            case False
            then show ?thesis using old kj k il "1.prems"(1) pj by (simp add: key_Swap)
          qed
        qed
      qed
    qed
    have B: "\<forall>k. 0 < ?i \<and> k < length ?h \<and> 0 < k \<and> (k - 1) div 2 = ?i \<longrightarrow>
               key st ?h ((?i - 1) div 2) \<le> key st ?h k"
    proof (intro allI impI)
      fix k assume k: "0 < ?i \<and> k < length ?h \<and> 0 < k \<and> (k - 1) div 2 = ?i"
      then have kl: "k < length h" by simp
      have ipos: "0 < ?i" using k by simp
      have pi: "(?i - 1) div 2 < ?i" using ipos by auto
      have gp: "key st h ((?i - 1) div 2) \<le> key st h ?i"
        using "1.prems"(2) ipos il ij by blast
      have "(k - 1) div 2 < k" using k by (intro parent_less) simp
      then have kne: "k \<noteq> ?i" using k by simp
      have g1: "key st ?h ((?i - 1) div 2) = key st h ((?i - 1) div 2)"
        using pi ilt il "1.prems"(1) by (simp add: key_Swap)
      show "key st ?h ((?i - 1) div 2) \<le> key st ?h k"
      proof (cases "k = j")
        case True
        then show ?thesis using g1 gp il "1.prems"(1) by (simp add: key_Swap)
      next
        case False
        have "key st h ?i \<le> key st h k" using "1.prems"(2) k False kl by metis
        then show ?thesis using g1 gp False kne il "1.prems"(1) by (simp add: key_Swap)
      qed
    qed
    have "heap_ok st (up st ?h ?i) (length ?h)"
      using "1.IH" [OF refl _ _ A B] False il by simp
    then show ?thesis using False by (subst up.simps) (simp add: Let_def)
  qed
qed

lemma down_stop1: "n \<le> 2 * i + 1 \<Longrightarrow> down st h i n = h"
  by (subst down.simps) (simp add: Let_def)

lemma down_stop2:
  "\<not> n \<le> 2 * i + 1 \<Longrightarrow>
   j = (if 2 * i + 1 + 1 < n \<and> Less st h (2 * i + 1 + 1) (2 * i + 1) then 2 * i + 1 + 1 else 2 * i + 1) \<Longrightarrow>
   \<not> Less st h j i \<Longrightarrow> down st h i n = h"
  by (subst down.simps, unfold Let_def, hypsubst) (simp only: if_False if_True not_False_eq_True not_True_eq_False)

lemma down_rec:
  "\<not> n \<le> 2 * i + 1 \<Longrightarrow>
   j = (if 2 * i + 1 + 1 < n \<and> Less st h (2 * i + 1 + 1) (2 * i + 1) then 2 * i + 1 + 1 else 2 * i + 1) \<Longrightarrow>
   Less st h j i \<Longrightarrow> down st h i n = down st (Swap h i j) j n"
  by (subst down.simps, unfold Let_def, hypsubst) (simp only: if_False if_True not_False_eq_True not_True_eq_False)

lemma length_down [simp]: "length (down st h i n) = length h"
proof (induction st h i n rule: down.induct)
  case (1 st h i n)
  show ?case
    using "1" by (subst down.simps) (simp add: Let_def)
qed

lemma down_nth_above:
  "n \<le> m \<Longrightarrow> i < n \<Longrightarrow> down st h i n ! m = h ! m"
proof (induction st h i n rule: down.induct)
  case (1 st h i n)
  let ?j1 = "2 * i + 1"
  let ?j = "if ?j1 + 1 < n \<and> Less st h (?j1 + 1) ?j1 then ?j1 + 1 else ?j1"
  show ?case
  proof (cases "n \<le> ?j1 \<or> \<not> Less st h ?j i")
    case True
    then have "down st h i n = h"
    proof
      assume "n \<le> ?j1" then show ?thesis by (rule down_stop1)
    next
      assume a: "\<not> Less st h ?j i"
      show ?thesis
      proof (cases "n \<le> ?j1")
        case True then show ?thesis by (rule down_stop1)
      next
        case False then show ?thesis using a by (rule down_stop2 [OF _ refl])
      qed
    qed
    then show ?thesis by simp
  next
    case False
    then have jn: "?j < n" by auto
    have rec: "down st h i n = down st (Swap h i ?j) ?j n"
      using False by (intro down_rec [OF _ refl]) simp_all
    have "down st (Swap h i ?j) ?j n ! m = Swap h i ?j ! m"
      using "1.IH" [OF refl _ refl _ "1.prems"(1) jn] False by auto
    moreover have "Swap h i ?j ! m = h ! m"
      using "1.prems" jn by (simp add: Swap_def)
    ultimately show ?thesis
      by (simp only: rec)
  qed
qed

lemma mset_down: "n \<le> length h \<Longrightarrow> i < n \<Longrightarrow> mset (down st h i n) = mset h"
proof (induction st h i n rule: down.induct)
  case (1 st h i n)
  let ?j1 = "2 * i + 1"
  let ?j = "if ?j1 + 1 < n \<and> Less st h (?j1 + 1) ?j1 then ?j1 + 1 else ?j1"
  show ?case
  proof (cases "n \<le> ?j1 \<or> \<not> Less st h ?j i")
    case True
    then have "down st h i n = h"
    proof
      assume "n \<le> ?j1" then show ?thesis by (rule down_stop1)
    next
      assume a: "\<not> Less st h ?j i"
      show ?thesis
      proof (cases "n \<le> ?j1")
        case True then show ?thesis by (rule down_stop1)
      next
        case False then show ?thesis using a by (rule down_stop2 [OF _ refl])
      qed
    qed
    then show ?thesis by simp
  next
    case False
    then have jn: "?j < n" by auto
    have rec: "down st h i n = down st (Swap h i ?j) ?j n"
      using False by (intro down_rec [OF _ refl]) simp_all
    have ln: "n \<le> length (Swap h i ?j)" using "1.prems" by simp
    have "mset (down st (Swap h i ?j) ?j n) = mset (Swap h i ?j)"
      using "1.IH" [OF refl _ refl _ ln jn] False by auto
    moreover have "mset (Swap h i ?j) = mset h"
      using "1.prems" jn by (intro mset_Swap) auto
    ultimately show ?thesis
      by (simp only: rec)
  qed
qed

lemma down_ok:
  "n \<le> length h \<Longrightarrow> i < n \<Longrightarrow>
   (\<forall>k. 0 < k \<and> k < n \<and> (k - 1) div 2 \<noteq> i \<longrightarrow> key st h ((k - 1) div 2) \<le> key st h k) \<Longrightarrow>
   (\<forall>k. 0 < i \<and> 0 < k \<and> k < n \<and> (k - 1) div 2 = i \<longrightarrow> key st h ((i - 1) div 2) \<le> key st h k) \<Longrightarrow>
   heap_ok st (down st h i n) n"
proof (induction st h i n rule: down.induct)
  case (1 st h i n)
  let ?j1 = "2 * i + 1"
  let ?j = "if ?j1 + 1 < n \<and> Less st h (?j1 + 1) ?j1 then ?j1 + 1 else ?j1"
  have child: "\<And>k. 0 < k \<Longrightarrow> (k - 1) div 2 = i \<Longrightarrow> k = ?j1 \<or> k = ?j1 + 1"
    by arith
  show ?case
  proof (cases "n \<le> ?j1")
    case True
    have "heap_ok st h n"
      unfolding heap_ok_def
    proof (intro allI impI)
      fix k assume k: "0 < k \<and> k < n"
      then have "(k - 1) div 2 \<noteq> i" using True child [of k] by auto
      then show "key st h ((k - 1) div 2) \<le> key st h k" using "1.prems"(3) k by blast
    qed
    with True show ?thesis by (simp only: down_stop1)
  next
    case j1n: False
    have jn: "?j < n" using j1n by auto
    have jpar: "(?j - 1) div 2 = i" by auto
    have ij: "i < ?j" by auto
    have jmin: "\<And>k. 0 < k \<Longrightarrow> k < n \<Longrightarrow> (k - 1) div 2 = i \<Longrightarrow> key st h ?j \<le> key st h k"
    proof -
      fix k assume "0 < k" "k < n" "(k - 1) div 2 = i"
      then have "k = ?j1 \<or> k = ?j1 + 1" using child by blast
      then show "key st h ?j \<le> key st h k"
        using \<open>k < n\<close> by (auto simp: Less_def Before_def key_def)
    qed
    show ?thesis
    proof (cases "Less st h ?j i")
      case False
      then have ile: "key st h i \<le> key st h ?j" by (simp add: Less_def Before_def key_def)
      have "heap_ok st h n"
        unfolding heap_ok_def
      proof (intro allI impI)
        fix k assume k: "0 < k \<and> k < n"
        show "key st h ((k - 1) div 2) \<le> key st h k"
        proof (cases "(k - 1) div 2 = i")
          case True
          then show ?thesis using jmin [of k] k ile by simp
        next
          case False
          then show ?thesis using "1.prems"(3) k by blast
        qed
      qed
      moreover have "down st h i n = h" using j1n False by (rule down_stop2 [OF _ refl])
      ultimately show ?thesis by (simp only:)
    next
      case True
      then have less: "key st h ?j < key st h i" by (simp add: Less_def Before_def key_def)
      let ?h = "Swap h i ?j"
      have il: "i < length h" and jl: "?j < length h" using "1.prems"(1,2) jn by auto
      have ks: "\<And>k. key st ?h k = (if k = ?j then key st h i else if k = i then key st h ?j else key st h k)"
        using key_Swap [OF il jl] by simp
      have A: "\<forall>k. 0 < k \<and> k < n \<and> (k - 1) div 2 \<noteq> ?j \<longrightarrow> key st ?h ((k - 1) div 2) \<le> key st ?h k"
      proof (intro allI impI)
        fix k assume k: "0 < k \<and> k < n \<and> (k - 1) div 2 \<noteq> ?j"
        have pk: "(k - 1) div 2 < k" using k by (intro parent_less) simp
        show "key st ?h ((k - 1) div 2) \<le> key st ?h k"
        proof (cases "k = ?j")
          case True
          then show ?thesis using less jpar ij by (simp only: ks) simp
        next
          case kj: False
          show ?thesis
          proof (cases "(k - 1) div 2 = i")
            case True
            have "key st h ?j \<le> key st h k" using jmin [of k] k True by simp
            moreover have "k \<noteq> i" using pk True by simp
            ultimately show ?thesis using True kj ij by (simp only: ks) simp
          next
            case pi: False
            have old: "key st h ((k - 1) div 2) \<le> key st h k" using "1.prems"(3) k pi by blast
            show ?thesis
            proof (cases "k = i")
              case True
              then have ipos: "0 < i" using k by simp
              have jpos: "0 < ?j" by simp
              have "key st h ((i - 1) div 2) \<le> key st h ?j"
                using "1.prems"(4) [rule_format, of ?j] ipos jn jpar jpos by blast
              moreover have "(i - 1) div 2 \<noteq> ?j" using k True by simp
              moreover have "(i - 1) div 2 \<noteq> i" using parent_less [OF ipos] by simp
              ultimately show ?thesis using True kj by (simp only: ks) simp
            next
              case False
              then show ?thesis using old kj pi k by (simp only: ks) simp
            qed
          qed
        qed
      qed
      have B: "\<forall>k. 0 < ?j \<and> 0 < k \<and> k < n \<and> (k - 1) div 2 = ?j \<longrightarrow>
                 key st ?h ((?j - 1) div 2) \<le> key st ?h k"
      proof (intro allI impI)
        fix k assume k: "0 < ?j \<and> 0 < k \<and> k < n \<and> (k - 1) div 2 = ?j"
        have pk: "(k - 1) div 2 < k" using k by (intro parent_less) simp
        then have kj: "k \<noteq> ?j" and ki: "k \<noteq> i" using k ij by auto
        have "(k - 1) div 2 \<noteq> i" using k ij by simp
        then have "key st h ((k - 1) div 2) \<le> key st h k"
          using "1.prems"(3) [rule_format, of k] k by blast
        then have "key st h ?j \<le> key st h k" using k by simp
        then show "key st ?h ((?j - 1) div 2) \<le> key st ?h k"
          using kj ki ij jpar by (simp only: ks) simp
      qed
      have ln: "n \<le> length ?h" using "1.prems"(1) by simp
      have "heap_ok st (down st ?h ?j n) n"
        using "1.IH" [OF refl _ refl _ ln jn A B] True j1n by simp
      moreover have "down st h i n = down st ?h ?j n"
        using j1n True by (rule down_rec [OF _ refl])
      ultimately show ?thesis by (simp only:)
    qed
  qed
qed

lemma heap_ok_root_min: "heap_ok st h n \<Longrightarrow> k < n \<Longrightarrow> key st h 0 \<le> key st h k"
proof (induction k rule: less_induct)
  case (less k)
  show ?case
  proof (cases "k = 0")
    case True
    then show ?thesis by simp
  next
    case False
    then have kp: "0 < k" by simp
    have pk: "(k - 1) div 2 < k" using kp by (rule parent_less)
    have "key st h 0 \<le> key st h ((k - 1) div 2)"
      using less.IH [OF pk less.prems(1)] pk less.prems(2) by simp
    moreover have "key st h ((k - 1) div 2) \<le> key st h k"
      using less.prems kp by (simp add: heap_ok_def)
    ultimately show ?thesis by simp
  qed
qed

lemma heap_ok_cong:
  "\<forall>p \<in> set h. t (st ! p) = t (st' ! p) \<Longrightarrow> n \<le> length h \<Longrightarrow> heap_ok st h n \<Longrightarrow> heap_ok st' h n"
proof -
  assume a: "\<forall>p \<in> set h. t (st ! p) = t (st' ! p)" and n: "n \<le> length h" and ok: "heap_ok st h n"
  have k: "\<And>k. k < n \<Longrightarrow> key st' h k = key st h k"
    using a n by (simp add: key_def)
  show "heap_ok st' h n"
    unfolding heap_ok_def
  proof (intro allI impI)
    fix k assume kk: "0 < k \<and> k < n"
    then have "(k - 1) div 2 < n" using parent_less [of k] by simp
    then show "key st' h ((k - 1) div 2) \<le> key st' h k"
      using ok kk k by (simp add: heap_ok_def)
  qed
qed

lemma length_heap_Push [simp]: "length (heap_Push st h x) = Suc (length h)"
  by (simp add: heap_Push_def Push_def Len_def Let_def)

lemma mset_heap_Push: "mset (heap_Push st h x) = add_mset x (mset h)"
  by (simp add: heap_Push_def Push_def Len_def Let_def mset_up)

lemma heap_Push_ok:
  assumes "heap_ok st h (length h)"
  shows "heap_ok st (heap_Push st h x) (Suc (length h))"
proof -
  let ?h = "h @ [x]"
  have A: "\<forall>k. 0 < k \<and> k < length ?h \<and> k \<noteq> length h \<longrightarrow> key st ?h ((k - 1) div 2) \<le> key st ?h k"
  proof (intro allI impI)
    fix k assume k: "0 < k \<and> k < length ?h \<and> k \<noteq> length h"
    then have kl: "k < length h" by simp
    then have pl: "(k - 1) div 2 < length h" using parent_less [of k] k by simp
    show "key st ?h ((k - 1) div 2) \<le> key st ?h k"
      using assms k kl pl by (simp add: heap_ok_def key_def nth_append)
  qed
  have B: "\<forall>k. 0 < length h \<and> k < length ?h \<and> 0 < k \<and> (k - 1) div 2 = length h \<longrightarrow>
             key st ?h ((length h - 1) div 2) \<le> key st ?h k"
  proof (intro allI impI)
    fix k assume k: "0 < length h \<and> k < length ?h \<and> 0 < k \<and> (k - 1) div 2 = length h"
    then have "k \<le> length h" by simp
    moreover have "(k - 1) div 2 < k" using k by (intro parent_less) simp
    ultimately have False using k by simp
    then show "key st ?h ((length h - 1) div 2) \<le> key st ?h k" ..
  qed
  have "heap_ok st (up st ?h (length h)) (length ?h)"
    by (rule up_ok [OF _ A B]) simp
  then show ?thesis by (simp add: heap_Push_def Push_def Len_def Let_def)
qed

lemma heap_Pop_None: "heap_Pop st h = None \<longleftrightarrow> h = []"
  by (simp add: heap_Pop_def Len_def Let_def)

lemma heap_Pop_Some:
  assumes "heap_Pop st h = Some (p, h')"
  shows "h \<noteq> [] \<and> p = h ! 0 \<and> length h' = length h - 1 \<and> mset h = add_mset p (mset h')"
proof -
  have ne: "h \<noteq> []" using assms by (auto simp: heap_Pop_def Len_def)
  let ?n = "length h - 1"
  let ?h1 = "Swap h 0 ?n"
  let ?h2 = "down st ?h1 0 ?n"
  have nl: "?n < length h" using ne by (cases h) auto
  have p: "p = ?h2 ! ?n" and h': "h' = take ?n ?h2"
    using assms ne by (auto simp: heap_Pop_def Pop_def Len_def Let_def)
  have len2: "length ?h2 = length h" by simp
  have "?h2 ! ?n = ?h1 ! ?n"
  proof (cases "?n = 0")
    case True
    then show ?thesis by (simp add: down_stop1)
  next
    case False
    then show ?thesis by (intro down_nth_above) auto
  qed
  also have "\<dots> = h ! 0" using nl by (simp add: Swap_def)
  finally have p0: "p = h ! 0" using p by simp
  have "mset ?h2 = mset ?h1"
  proof (cases "?n = 0")
    case True
    then show ?thesis by (simp add: down_stop1)
  next
    case False
    then show ?thesis using nl by (intro mset_down) auto
  qed
  also have "\<dots> = mset h" using nl ne by (intro mset_Swap) auto
  finally have m: "mset ?h2 = mset h" .
  have "?h2 = take ?n ?h2 @ [?h2 ! ?n]"
    using nl len2 by (metis Suc_diff_1 length_greater_0_conv ne take_Suc_conv_app_nth take_all order_refl)
  then have "mset ?h2 = add_mset (?h2 ! ?n) (mset (take ?n ?h2))"
    by (metis mset.simps(2) mset_append union_mset_add_mset_right add.right_neutral mset.simps(1))
  then have "mset h = add_mset p (mset h')" using m p h' by simp
  moreover have "length h' = length h - 1" using h' by simp
  ultimately show ?thesis using ne p0 by simp
qed

lemma heap_Pop_ok:
  assumes "heap_Pop st h = Some (p, h')" and ok: "heap_ok st h (length h)"
  shows "heap_ok st h' (length h')"
proof -
  have ne: "h \<noteq> []" using assms by (auto simp: heap_Pop_def Len_def)
  let ?n = "length h - 1"
  let ?h1 = "Swap h 0 ?n"
  let ?h2 = "down st ?h1 0 ?n"
  have nl: "?n < length h" using ne by (cases h) auto
  have h': "h' = take ?n ?h2"
    using assms ne by (auto simp: heap_Pop_def Pop_def Len_def Let_def)
  have ok2: "heap_ok st ?h2 ?n"
  proof (cases "?n = 0")
    case True
    then show ?thesis by (simp add: heap_ok_def)
  next
    case False
    have A: "\<forall>k. 0 < k \<and> k < ?n \<and> (k - 1) div 2 \<noteq> 0 \<longrightarrow> key st ?h1 ((k - 1) div 2) \<le> key st ?h1 k"
    proof (intro allI impI)
      fix k assume k: "0 < k \<and> k < ?n \<and> (k - 1) div 2 \<noteq> 0"
      have pk: "(k - 1) div 2 < k" using k by (intro parent_less) simp
      have "k < length h" using k by arith
      then have "key st h ((k - 1) div 2) \<le> key st h k" using ok k by (simp add: heap_ok_def)
      moreover have z: "0 < length h" using ne by simp
      moreover have "(k - 1) div 2 \<noteq> ?n" "k \<noteq> ?n" "k \<noteq> 0" using k pk by simp_all
      ultimately show "key st ?h1 ((k - 1) div 2) \<le> key st ?h1 k"
        using k key_Swap [OF z nl, of st] by simp
    qed
    show ?thesis
      by (rule down_ok [OF _ _ A]) (use False in auto)
  qed
  have "\<And>k. k < ?n \<Longrightarrow> key st h' k = key st ?h2 k"
    using h' by (simp add: key_def)
  then have "heap_ok st h' ?n"
    using ok2 parent_less unfolding heap_ok_def
    by (metis (no_types, lifting) less_trans)
  then show ?thesis using h' by simp
qed

section \<open>Invariants of the system\<close>

lemmas step_defs = worker_step_def timer_step_def wake_step_def client_step_def call_step_def
  emit_def set_cpc_def Broadcast_def wake_send_def

lemma NowMonotonic_eq [simp]: "NowMonotonic n = n"
  by (simp add: NowMonotonic_def Unix_def sdiv_mult_smod_eq)

lemma peek_simps [simp]: "peek [] = None" "peek (p # ps) = Some p"
  by (simp_all add: peek_def)

lemma peek_None [simp]: "peek h = None \<longleftrightarrow> h = []"
  by (cases h) auto

lemma peek_Some: "peek h = Some p \<Longrightarrow> h \<noteq> [] \<and> p = h ! 0"
  by (cases h) auto

lemma reachable_run: "reachable s \<Longrightarrow> run as s = Some s' \<Longrightarrow> reachable s'"
proof (induction as arbitrary: s)
  case Nil
  then show ?case by simp
next
  case (Cons a as)
  then show ?case by (auto split: option.splits intro: reachable.step)
qed

text \<open>The transitions of the worker, one case for each statement.\<close>

lemma worker_stepE [consumes 1]:
  assumes "worker_step s = Some s'"
  obtains
    (W166) "wpc s = W166" "mu s = None" "s' = emit (EvAcquire Worker Mu) (s\<lparr>mu := Some Worker, wpc := W167\<rparr>)"
    | (W167) "wpc s = W167" "s' = s\<lparr>wpc := (if stopped s then W168 else W172)\<rparr>"
    | (W168) "wpc s = W168" "s' = emit (EvRelease Worker Mu) (s\<lparr>mu := None, wpc := W_returned\<rparr>)"
    | (W172) "wpc s = W172" "s' = s\<lparr>wpc := (if timeouts s = [] then W174 else W188)\<rparr>"
    | (W174) "wpc s = W174" "s' = emit (EvRelease Worker Mu) (s\<lparr>cond := True, mu := None, wpc := W174_parked\<rparr>)"
    | (W174_parked) "wpc s = W174_parked" "\<not> cond s" "mu s = None" "s' = emit (EvAcquire Worker Mu) (s\<lparr>mu := Some Worker, wpc := W175\<rparr>)"
    | (W175) "wpc s = W175" "s' = s\<lparr>wpc := (if stopped s then W176 else W188)\<rparr>"
    | (W176) "wpc s = W176" "s' = emit (EvRelease Worker Mu) (s\<lparr>mu := None, wpc := W_returned\<rparr>)"
    | (W188_panic) "wpc s = W188" "timeouts s = []" "s' = s\<lparr>wpc := W_panic\<rparr>"
    | (W188) "wpc s = W188" "timeouts s \<noteq> []" "s' = s\<lparr>wpc := W189 (timeouts s ! 0)\<rparr>"
    | (W189) to where "wpc s = W189 to" "s' = s\<lparr>wpc := W190 to (clock s)\<rparr>"
    | (W190) to now where "wpc s = W190 to now" "s' = s\<lparr>wpc := (if t (store s ! to) < now then W205 else W193 to now)\<rparr>"
    | (W193) to now where "wpc s = W193 to now" "s' = emit (EvRelease Worker Mu) (s\<lparr>mu := None, wpc := W194 to now\<rparr>)"
    | (W194) to now where "wpc s = W194 to now" "s' = s\<lparr>wpc := W194_select (clock s + Sub (t (store s ! to)) now)\<rparr>"
    | (W198) "wpc s = W198" "mu s = None" "s' = emit (EvAcquire Worker Mu) (s\<lparr>mu := Some Worker, wpc := W199\<rparr>)"
    | (W199) "wpc s = W199" "s' = s\<lparr>wpc := (if stopped s then W200 else W188)\<rparr>"
    | (W200) "wpc s = W200" "s' = emit (EvRelease Worker Mu) (s\<lparr>mu := None, wpc := W_returned\<rparr>)"
    | (W205_panic) "wpc s = W205" "timeouts s = []" "s' = s\<lparr>wpc := W_panic\<rparr>"
    | (W205) to h where "wpc s = W205" "heap_Pop (store s) (timeouts s) = Some (to, h)" "s' = emit (EvPop to) (s\<lparr>timeouts := h, wpc := W206 to\<rparr>)"
    | (W206) to where "wpc s = W206 to" "s' = s\<lparr>wpc := (if cancel (store s ! to) = 0 then W211 to else W237)\<rparr>"
    | (W211) to where "wpc s = W211 to" "s' = emit (EvRelease Worker Mu) (s\<lparr>mu := None, wpc := W212 to\<rparr>)"
    | (W212) to where "wpc s = W212 to" "locker s = None" "s' = emit (EvAcquire Worker Locker) (s\<lparr>locker := Some Worker, wpc := W213 to\<rparr>)"
    | (W213) to where "wpc s = W213 to" "mu s = None" "s' = emit (EvAcquire Worker Mu) (s\<lparr>mu := Some Worker, wpc := W214 to\<rparr>)"
    | (W214) to where "wpc s = W214 to" "s' = s\<lparr>wpc := (if stopped s then W215 else W230 to)\<rparr>"
    | (W215) "wpc s = W215" "s' = emit (EvRelease Worker Mu) (s\<lparr>mu := None, wpc := W216\<rparr>)"
    | (W216) "wpc s = W216" "s' = emit (EvRelease Worker Locker) (s\<lparr>locker := None, wpc := W_returned\<rparr>)"
    | (W230) to where "wpc s = W230 to" "s' = s\<lparr>wpc := (if cancel (store s ! to) = 0 then W233 to else W235)\<rparr>"
    | (W233) to where "wpc s = W233 to" "s' = emit (EvFireBegin to) (s\<lparr>wpc := W233_running to\<rparr>)"
    | (W233_running) to where "wpc s = W233_running to" "s' = emit (EvFireEnd to) (s\<lparr>wpc := W235\<rparr>)"
    | (W235) "wpc s = W235" "s' = emit (EvRelease Worker Locker) (s\<lparr>locker := None, wpc := W237\<rparr>)"
    | (W237) "wpc s = W237" "s' = emit (EvRelease Worker Mu) (s\<lparr>mu := None, wpc := W166\<rparr>)"
proof (cases "wpc s")
  case W166
  then show ?thesis using assms that(1)
    by (simp add: worker_step_def Len_def After_def split: if_splits)
next
  case W167
  then show ?thesis using assms that(2)
    by (simp add: worker_step_def Len_def After_def split: if_splits)
next
  case W168
  then show ?thesis using assms that(3)
    by (simp add: worker_step_def Len_def After_def split: if_splits)
next
  case W172
  then show ?thesis using assms that(4)
    by (simp add: worker_step_def Len_def After_def split: if_splits)
next
  case W174
  then show ?thesis using assms that(5)
    by (simp add: worker_step_def Len_def After_def split: if_splits)
next
  case W174_parked
  then show ?thesis using assms that(6)
    by (simp add: worker_step_def Len_def After_def split: if_splits)
next
  case W175
  then show ?thesis using assms that(7)
    by (simp add: worker_step_def Len_def After_def split: if_splits)
next
  case W176
  then show ?thesis using assms that(8)
    by (simp add: worker_step_def Len_def After_def split: if_splits)
next
  case W188
  then show ?thesis using assms that(9) that(10)
    by (cases "timeouts s") (auto simp: worker_step_def)
next
  case (W189 to)
  then show ?thesis using assms that(11)
    by (simp add: worker_step_def Len_def After_def split: if_splits)
next
  case (W190 to now)
  then show ?thesis using assms that(12)
    by (simp add: worker_step_def Len_def After_def split: if_splits)
next
  case (W193 to now)
  then show ?thesis using assms that(13)
    by (simp add: worker_step_def Len_def After_def split: if_splits)
next
  case (W194 to now)
  then show ?thesis using assms that(14)
    by (simp add: worker_step_def Len_def After_def split: if_splits)
next
  case (W194_select e)
  then show ?thesis using assms 
    by (simp add: worker_step_def Len_def After_def split: if_splits)
next
  case W198
  then show ?thesis using assms that(15)
    by (simp add: worker_step_def Len_def After_def split: if_splits)
next
  case W199
  then show ?thesis using assms that(16)
    by (simp add: worker_step_def Len_def After_def split: if_splits)
next
  case W200
  then show ?thesis using assms that(17)
    by (simp add: worker_step_def Len_def After_def split: if_splits)
next
  case W205
  then show ?thesis using assms that(18) that(19)
    by (auto simp: worker_step_def heap_Pop_None split: option.splits)
next
  case (W206 to)
  then show ?thesis using assms that(20)
    by (simp add: worker_step_def Len_def After_def split: if_splits)
next
  case (W211 to)
  then show ?thesis using assms that(21)
    by (simp add: worker_step_def Len_def After_def split: if_splits)
next
  case (W212 to)
  then show ?thesis using assms that(22)
    by (simp add: worker_step_def Len_def After_def split: if_splits)
next
  case (W213 to)
  then show ?thesis using assms that(23)
    by (simp add: worker_step_def Len_def After_def split: if_splits)
next
  case (W214 to)
  then show ?thesis using assms that(24)
    by (simp add: worker_step_def Len_def After_def split: if_splits)
next
  case W215
  then show ?thesis using assms that(25)
    by (simp add: worker_step_def Len_def After_def split: if_splits)
next
  case W216
  then show ?thesis using assms that(26)
    by (simp add: worker_step_def Len_def After_def split: if_splits)
next
  case (W230 to)
  then show ?thesis using assms that(27)
    by (simp add: worker_step_def Len_def After_def split: if_splits)
next
  case (W233 to)
  then show ?thesis using assms that(28)
    by (simp add: worker_step_def Len_def After_def split: if_splits)
next
  case (W233_running to)
  then show ?thesis using assms that(29)
    by (simp add: worker_step_def Len_def After_def split: if_splits)
next
  case W235
  then show ?thesis using assms that(30)
    by (simp add: worker_step_def Len_def After_def split: if_splits)
next
  case W237
  then show ?thesis using assms that(31)
    by (simp add: worker_step_def Len_def After_def split: if_splits)
next
  case W_returned
  then show ?thesis using assms 
    by (simp add: worker_step_def Len_def After_def split: if_splits)
next
  case W_panic
  then show ?thesis using assms 
    by (simp add: worker_step_def Len_def After_def split: if_splits)
qed

text \<open>The transitions of a client inside a call.\<close>

lemma client_stepE [consumes 1]:
  assumes "client_step c s = Some s'"
  obtains
    (A149) to where "clients s c = A149 to" "mu s = None" "s' = emit (EvAcquire (Client c) Mu) (set_cpc c (A150 to) (s\<lparr>mu := Some (Client c)\<rparr>))"
    | (A150) to where "clients s c = A150 to" "s' = emit (EvPush to) (set_cpc c (A151 to) (s\<lparr>timeouts := heap_Push (store s) (timeouts s) to\<rparr>))"
    | (A151) to where "clients s c = A151 to" "s' = set_cpc c (A156 to) (if length (timeouts s) = 1 then Broadcast s else s)"
    | (A156) to where "clients s c = A156 to" "s' = set_cpc c (A160 to) (wake_send s)"
    | (A160) to where "clients s c = A160 to" "s' = emit (EvRelease (Client c) Mu) (set_cpc c (A161 to) (s\<lparr>mu := None\<rparr>))"
    | (A161) to where "clients s c = A161 to" "s' = set_cpc c Idle s"
    | (S130) "clients s c = S130" "mu s = None" "s' = emit (EvAcquire (Client c) Mu) (set_cpc c S131 (s\<lparr>mu := Some (Client c)\<rparr>))"
    | (S131) "clients s c = S131" "s' = set_cpc c S132 (s\<lparr>stopped := True\<rparr>)"
    | (S132) "clients s c = S132" "s' = set_cpc c S136 (if timeouts s = [] then Broadcast s else s)"
    | (S136) "clients s c = S136" "s' = set_cpc c S140 (wake_send s)"
    | (S140) "clients s c = S140" "s' = emit (EvRelease (Client c) Mu) (set_cpc c S141 (s\<lparr>mu := None\<rparr>))"
    | (S141) "clients s c = S141" "s' = emit (EvStopReturn c) (set_cpc c Idle s)"
proof (cases "clients s c")
  case Idle
  then show ?thesis using assms 
    by (simp add: client_step_def Len_def split: if_splits)
next
  case (A149 to)
  then show ?thesis using assms that(1)
    by (simp add: client_step_def Len_def split: if_splits)
next
  case (A150 to)
  then show ?thesis using assms that(2)
    by (simp add: client_step_def Len_def split: if_splits)
next
  case (A151 to)
  then show ?thesis using assms that(3)
    by (simp add: client_step_def Len_def split: if_splits)
next
  case (A156 to)
  then show ?thesis using assms that(4)
    by (simp add: client_step_def Len_def split: if_splits)
next
  case (A160 to)
  then show ?thesis using assms that(5)
    by (simp add: client_step_def Len_def split: if_splits)
next
  case (A161 to)
  then show ?thesis using assms that(6)
    by (simp add: client_step_def Len_def split: if_splits)
next
  case S130
  then show ?thesis using assms that(7)
    by (simp add: client_step_def Len_def split: if_splits)
next
  case S131
  then show ?thesis using assms that(8)
    by (simp add: client_step_def Len_def split: if_splits)
next
  case S132
  then show ?thesis using assms that(9)
    by (simp add: client_step_def Len_def split: if_splits)
next
  case S136
  then show ?thesis using assms that(10)
    by (simp add: client_step_def Len_def split: if_splits)
next
  case S140
  then show ?thesis using assms that(11)
    by (simp add: client_step_def Len_def split: if_splits)
next
  case S141
  then show ?thesis using assms that(12)
    by (simp add: client_step_def Len_def split: if_splits)
qed

text \<open>The calls an idle client may begin.\<close>

lemma call_stepE [consumes 1]:
  assumes "call_step c k s = Some s'"
  obtains
    (CallAddTimeout) cb deadline where "clients s c = Idle" "k = CallAddTimeout cb deadline" "s' = set_cpc c (A149 (length (store s))) (s\<lparr>store := store s @ [new_Timeout cb deadline]\<rparr>)"
    | (CallStop) "clients s c = Idle" "k = CallStop" "s' = emit (EvStopCall c) (set_cpc c S130 s)"
    | (CallCancel) p where "clients s c = Idle" "k = CallCancel p" "p < length (store s)" "s' = s\<lparr>store := Cancel (store s) p\<rparr>"
    | (CallLock) "clients s c = Idle" "k = CallLock" "locker s = None" "s' = emit (EvAcquire (Client c) Locker) (s\<lparr>locker := Some (Client c)\<rparr>)"
    | (CallUnlock) "clients s c = Idle" "k = CallUnlock" "locker s = Some (Client c)" "s' = emit (EvRelease (Client c) Locker) (s\<lparr>locker := None\<rparr>)"
proof (cases k)
  case (CallAddTimeout cb deadline)
  then show ?thesis using assms that(1)
    by (simp add: call_step_def split: if_splits)
next
  case CallStop
  then show ?thesis using assms that(2)
    by (simp add: call_step_def split: if_splits)
next
  case (CallCancel p)
  then show ?thesis using assms that(3)
    by (simp add: call_step_def split: if_splits)
next
  case CallLock
  then show ?thesis using assms that(4)
    by (simp add: call_step_def split: if_splits)
next
  case CallUnlock
  then show ?thesis using assms that(5)
    by (simp add: call_step_def split: if_splits)
qed

subsection \<open>Mutual exclusion on the internal mutex\<close>

lemma inv_mu_step:
  assumes "inv_mu s" and st: "step a s = Some s'"
  shows "inv_mu s'"
proof -
  have W: "wholds (wpc s) \<longrightarrow> mu s = Some Worker"
    and C: "\<And>c. cholds (clients s c) \<longrightarrow> mu s = Some (Client c)"
    using assms(1) by (auto simp: inv_mu_def)
  show ?thesis
  proof (cases a)
    case AWorker
    with st have "worker_step s = Some s'" by simp
    then show ?thesis
      by (cases rule: worker_stepE) (use W C in \<open>auto simp: inv_mu_def emit_def\<close>)
  next
    case ATimer
    then show ?thesis using st W C unfolding inv_mu_def
      by (auto simp: step_defs split: wpc.splits if_splits)
  next
    case AWake
    then show ?thesis using st W C unfolding inv_mu_def
      by (auto simp: step_defs split: wpc.splits if_splits)
  next
    case (ATick n)
    then show ?thesis using st W C unfolding inv_mu_def by auto
  next
    case (ACall c k)
    with st have "call_step c k s = Some s'" by simp
    then show ?thesis
      by (cases rule: call_stepE) (use W C in \<open>auto simp: inv_mu_def emit_def set_cpc_def\<close>)
  next
    case (AClient c)
    with st have "client_step c s = Some s'" by simp
    then show ?thesis
      by (cases rule: client_stepE)
        (use W C C [of c] in \<open>auto simp: inv_mu_def emit_def set_cpc_def Broadcast_def wake_send_def\<close>)
  qed
qed

lemma reachable_inv_mu: "reachable s \<Longrightarrow> inv_mu s"
proof (induction rule: reachable.induct)
  case (init now)
  show ?case by (simp add: inv_mu_def NewDaemon_def)
next
  case (step s a s')
  then show ?case by (auto intro: inv_mu_step)
qed

subsection \<open>The heap is not empty where the worker reads it\<close>

lemma heap_Push_ne [simp]: "heap_Push st h x \<noteq> []"
  using length_heap_Push [of st h x] by (metis length_0_conv nat.distinct(1))

lemma inv_wait_step:
  assumes "inv_wait s" and st: "step a s = Some s'"
  shows "inv_wait s'"
proof -
  have C: "\<And>c. after_stopped (clients s c) \<longrightarrow> stopped s"
    and L: "in_loop (wpc s) \<longrightarrow> timeouts s \<noteq> []"
    and P: "wpc s = W175 \<or> (wpc s = W174_parked \<and> \<not> cond s) \<longrightarrow> timeouts s \<noteq> [] \<or> stopped s"
    and N: "wpc s \<noteq> W_panic"
    using assms(1) by (auto simp: inv_wait_def)
  show ?thesis
  proof (cases a)
    case AWorker
    with st have "worker_step s = Some s'" by simp
    then show ?thesis
      by (cases rule: worker_stepE) (use C L P N in \<open>auto simp: inv_wait_def emit_def heap_Pop_None\<close>)
  next
    case ATimer
    then show ?thesis using st C L P N unfolding inv_wait_def
      by (auto simp: step_defs split: wpc.splits if_splits)
  next
    case AWake
    then show ?thesis using st C L P N unfolding inv_wait_def
      by (auto simp: step_defs split: wpc.splits if_splits)
  next
    case (ATick n)
    then show ?thesis using st C L P N unfolding inv_wait_def by auto
  next
    case (ACall c k)
    with st have "call_step c k s = Some s'" by simp
    then show ?thesis
      by (cases rule: call_stepE) (use C L P N in \<open>auto simp: inv_wait_def emit_def set_cpc_def\<close>)
  next
    case (AClient c)
    with st have "client_step c s = Some s'" by simp
    then show ?thesis
      by (cases rule: client_stepE)
        (use C C [of c] L P N in \<open>auto simp: inv_wait_def emit_def set_cpc_def Broadcast_def wake_send_def\<close>)
  qed
qed

lemma reachable_inv_wait: "reachable s \<Longrightarrow> inv_wait s"
proof (induction rule: reachable.induct)
  case (init now)
  show ?case by (simp add: inv_wait_def NewDaemon_def)
next
  case (step s a s')
  then show ?case by (auto intro: inv_wait_step)
qed

subsection \<open>Pointers are valid\<close>

lemma set_heap_Push [simp]: "set (heap_Push st h x) = insert x (set h)"
  using mset_heap_Push [of st h x] by (metis set_mset_add_mset_insert set_mset_mset)

lemma heap_Pop_set:
  assumes "heap_Pop st h = Some (p, h')"
  shows "set h = insert p (set h')"
  using heap_Pop_Some [OF assms] by (metis set_mset_add_mset_insert set_mset_mset)

lemma length_Cancel [simp]: "length (Cancel st p) = length st"
  by (simp add: Cancel_def)

lemma t_Cancel [simp]: "t (Cancel st p ! q) = t (st ! q)"
proof (cases "p < length st")
  case True
  then show ?thesis by (auto simp: Cancel_def nth_list_update)
next
  case False
  then have "st[p := (st ! p)\<lparr>cancel := 1\<rparr>] = st" by (intro list_update_beyond) simp
  then show ?thesis by (simp add: Cancel_def)
qed

lemma inv_ptr_step:
  assumes "inv_ptr s" and st: "step a s = Some s'"
  shows "inv_ptr s'"
proof -
  have H: "\<And>p. p \<in> set (timeouts s) \<Longrightarrow> p < length (store s)"
    and W: "\<And>p. wptr (wpc s) = Some p \<Longrightarrow> p < length (store s)"
    and C: "\<And>c p. cptr (clients s c) = Some p \<Longrightarrow> p < length (store s)"
    using assms(1) by (auto simp: inv_ptr_def)
  show ?thesis
  proof (cases a)
    case AWorker
    with st have "worker_step s = Some s'" by simp
    then show ?thesis
      by (cases rule: worker_stepE)
        (use H W C in \<open>auto simp: inv_ptr_def emit_def dest!: heap_Pop_set\<close>)
  next
    case ATimer
    then show ?thesis using st H W C unfolding inv_ptr_def
      by (auto simp: step_defs split: wpc.splits if_splits)
  next
    case AWake
    then show ?thesis using st H W C unfolding inv_ptr_def
      by (auto simp: step_defs split: wpc.splits if_splits)
  next
    case (ATick n)
    then show ?thesis using st H W C unfolding inv_ptr_def by auto
  next
    case (ACall c k)
    with st have "call_step c k s = Some s'" by simp
    then show ?thesis
      by (cases rule: call_stepE)
        (use H W C in \<open>auto simp: inv_ptr_def emit_def set_cpc_def less_Suc_eq\<close>)
  next
    case (AClient c)
    with st have "client_step c s = Some s'" by simp
    then show ?thesis
      by (cases rule: client_stepE)
        (use H W C C [of c] in \<open>auto simp: inv_ptr_def emit_def set_cpc_def Broadcast_def wake_send_def\<close>)
  qed
qed

lemma reachable_inv_ptr: "reachable s \<Longrightarrow> inv_ptr s"
proof (induction rule: reachable.induct)
  case (init now)
  show ?case by (simp add: inv_ptr_def NewDaemon_def)
next
  case (step s a s')
  then show ?case by (auto intro: inv_ptr_step)
qed

subsection \<open>The popped record is due\<close>

lemma popped_wptr: "popped pc = Some p \<Longrightarrow> wptr pc = Some p"
  by (cases pc) auto

lemma popped_wholds: "popped pc = Some p \<Longrightarrow> pc \<noteq> W212 p \<Longrightarrow> pc \<noteq> W213 p \<Longrightarrow> wholds pc"
  by (cases pc) auto

lemma inv_deadline_step:
  assumes "inv_deadline s" and mu: "inv_mu s" and ptr: "inv_ptr s" and wait: "inv_wait s"
    and st: "step a s = Some s'"
  shows "inv_deadline s'"
proof -
  have D1: "\<And>p. wpc s = W189 p \<Longrightarrow> timeouts s ! 0 = p"
    and D2: "\<And>p now. wpc s = W190 p now \<Longrightarrow> timeouts s ! 0 = p \<and> now \<le> clock s"
    and D3: "wpc s = W205 \<Longrightarrow> t (store s ! (timeouts s ! 0)) < clock s"
    and D4: "\<And>p. popped (wpc s) = Some p \<Longrightarrow> t (store s ! p) < clock s"
    using assms(1) by (auto simp: inv_deadline_def)
  have Wm: "wholds (wpc s) \<Longrightarrow> mu s = Some Worker"
    and Cm: "\<And>c. cholds (clients s c) \<Longrightarrow> mu s = Some (Client c)"
    using mu by (auto simp: inv_mu_def)
  have H: "\<And>p. p \<in> set (timeouts s) \<Longrightarrow> p < length (store s)"
    and Wp: "\<And>p. wptr (wpc s) = Some p \<Longrightarrow> p < length (store s)"
    using ptr by (auto simp: inv_ptr_def)
  have L: "in_loop (wpc s) \<Longrightarrow> timeouts s \<noteq> []"
    using wait by (auto simp: inv_wait_def)
  have H0: "in_loop (wpc s) \<Longrightarrow> timeouts s ! 0 < length (store s)"
    using L H by (metis length_greater_0_conv nth_mem)
  show ?thesis
  proof (cases a)
    case AWorker
    with st have "worker_step s = Some s'" by simp
    then show ?thesis
      by (cases rule: worker_stepE)
        (use D1 D2 D3 D4 in \<open>auto simp: inv_deadline_def emit_def dest!: heap_Pop_Some\<close>)
  next
    case ATimer
    then show ?thesis using st D1 D2 D3 D4 unfolding inv_deadline_def
      by (auto simp: step_defs split: wpc.splits if_splits)
  next
    case AWake
    then show ?thesis using st D1 D2 D3 D4 unfolding inv_deadline_def
      by (auto simp: step_defs split: wpc.splits if_splits)
  next
    case (ATick n)
    then show ?thesis using st D1 D2 D3 D4 unfolding inv_deadline_def
      by (auto simp: add_strict_increasing2 add_increasing2)
  next
    case (ACall c k)
    with st have "call_step c k s = Some s'" by simp
    then show ?thesis
    proof (cases rule: call_stepE)
      case (CallAddTimeout cb deadline)
      have "\<And>p. wpc s = W189 p \<Longrightarrow> timeouts s ! 0 = p" using D1 by simp
      moreover have "wpc s = W205 \<Longrightarrow> t ((store s @ [new_Timeout cb deadline]) ! (timeouts s ! 0)) < clock s"
        using D3 H0 by (simp add: nth_append)
      moreover have "\<And>p. popped (wpc s) = Some p \<Longrightarrow> t ((store s @ [new_Timeout cb deadline]) ! p) < clock s"
        using D4 Wp popped_wptr by (simp add: nth_append)
      ultimately show ?thesis using CallAddTimeout D2
        by (simp add: inv_deadline_def set_cpc_def)
    qed (use D1 D2 D3 D4 in \<open>auto simp: inv_deadline_def emit_def set_cpc_def\<close>)
  next
    case (AClient c)
    with st have "client_step c s = Some s'" by simp
    then show ?thesis
    proof (cases rule: client_stepE)
      case (A150 to)
      then have "mu s = Some (Client c)" using Cm [of c] by simp
      then have nw: "\<not> wholds (wpc s)" using Wm by auto
      then have "wpc s \<noteq> W205" "\<And>p. wpc s \<noteq> W189 p" "\<And>p now. wpc s \<noteq> W190 p now"
        by auto
      then show ?thesis using A150 D4
        by (simp add: inv_deadline_def emit_def set_cpc_def)
    qed (use D1 D2 D3 D4 in \<open>auto simp: inv_deadline_def emit_def set_cpc_def Broadcast_def wake_send_def\<close>)
  qed
qed

lemma reachable_inv_deadline: "reachable s \<Longrightarrow> inv_deadline s"
proof (induction rule: reachable.induct)
  case (init now)
  show ?case by (simp add: inv_deadline_def NewDaemon_def)
next
  case (step s a s')
  then show ?case
    using reachable_inv_mu reachable_inv_ptr reachable_inv_wait by (blast intro: inv_deadline_step)
qed

subsection \<open>No callback begins once Stop has returned\<close>

lemma nostop_wholds: "nostop pc \<Longrightarrow> wholds pc"
  by (cases pc) auto

lemma inv_stop_step:
  assumes "inv_stop s" and mu: "inv_mu s" and wait: "inv_wait s" and st: "step a s = Some s'"
  shows "inv_stop s'"
proof -
  have R: "\<And>c. EvStopReturn c \<in> set (trace s) \<Longrightarrow> stopped s"
    and N: "nostop (wpc s) \<Longrightarrow> \<not> stopped s"
    using assms(1) by (auto simp: inv_stop_def)
  have Wm: "wholds (wpc s) \<Longrightarrow> mu s = Some Worker"
    and Cm: "\<And>c. cholds (clients s c) \<Longrightarrow> mu s = Some (Client c)"
    using mu by (auto simp: inv_mu_def)
  have A: "\<And>c. after_stopped (clients s c) \<Longrightarrow> stopped s"
    using wait by (auto simp: inv_wait_def)
  show ?thesis
  proof (cases a)
    case AWorker
    with st have "worker_step s = Some s'" by simp
    then show ?thesis
      by (cases rule: worker_stepE) (use R N in \<open>auto simp: inv_stop_def emit_def\<close>)
  next
    case ATimer
    then show ?thesis using st R N unfolding inv_stop_def
      by (auto simp: step_defs split: wpc.splits if_splits)
  next
    case AWake
    then show ?thesis using st R N unfolding inv_stop_def
      by (auto simp: step_defs split: wpc.splits if_splits)
  next
    case (ATick n)
    then show ?thesis using st R N unfolding inv_stop_def by auto
  next
    case (ACall c k)
    with st have "call_step c k s = Some s'" by simp
    then show ?thesis
      by (cases rule: call_stepE) (use R N in \<open>auto simp: inv_stop_def emit_def set_cpc_def\<close>)
  next
    case (AClient c)
    with st have "client_step c s = Some s'" by simp
    then show ?thesis
    proof (cases rule: client_stepE)
      case S131
      then have "mu s = Some (Client c)" using Cm [of c] by simp
      then have "\<not> wholds (wpc s)" using Wm by auto
      then have "\<not> nostop (wpc s)" using nostop_wholds by blast
      then show ?thesis using S131 R by (auto simp: inv_stop_def set_cpc_def)
    next
      case S141
      then have "stopped s" using A [of c] by simp
      then show ?thesis using S141 R N by (auto simp: inv_stop_def emit_def set_cpc_def)
    qed (use R N in \<open>auto simp: inv_stop_def emit_def set_cpc_def Broadcast_def wake_send_def\<close>)
  qed
qed

lemma reachable_inv_stop: "reachable s \<Longrightarrow> inv_stop s"
proof (induction rule: reachable.induct)
  case (init now)
  show ?case by (simp add: inv_stop_def NewDaemon_def)
next
  case (step s a s')
  then show ?case
    using reachable_inv_mu reachable_inv_wait by (blast intro: inv_stop_step)
qed

text \<open>Every transition leaves the trace as it is or adds one event.\<close>

lemma step_trace:
  assumes "step a s = Some s'"
  shows "trace s' = trace s \<or> (\<exists>e. trace s' = e # trace s)"
proof (cases a)
  case AWorker
  with assms have "worker_step s = Some s'" by simp
  then show ?thesis by (cases rule: worker_stepE) (auto simp: emit_def)
next
  case ATimer
  then show ?thesis using assms by (auto simp: step_defs split: wpc.splits if_splits)
next
  case AWake
  then show ?thesis using assms by (auto simp: step_defs split: wpc.splits if_splits)
next
  case (ATick n)
  then show ?thesis using assms by auto
next
  case (ACall c k)
  with assms have "call_step c k s = Some s'" by simp
  then show ?thesis by (cases rule: call_stepE) (auto simp: emit_def set_cpc_def)
next
  case (AClient c)
  with assms have "client_step c s = Some s'" by simp
  then show ?thesis
    by (cases rule: client_stepE) (auto simp: emit_def set_cpc_def Broadcast_def wake_send_def)
qed

text \<open>A callback begins only in the transition of line 233, and a record is popped
  only in the transition of line 205.\<close>

lemma step_FireBegin:
  assumes "step a s = Some s'" and "trace s' = EvFireBegin p # trace s"
  shows "a = AWorker \<and> wpc s = W233 p \<and> wpc s' = W233_running p"
proof (cases a)
  case AWorker
  with assms have "worker_step s = Some s'" by simp
  then show ?thesis using assms(2) AWorker
    by (cases rule: worker_stepE) (auto simp: emit_def split: if_splits)
next
  case ATimer
  then show ?thesis using assms by (auto simp: step_defs split: wpc.splits if_splits)
next
  case AWake
  then show ?thesis using assms by (auto simp: step_defs split: wpc.splits if_splits)
next
  case (ATick n)
  then show ?thesis using assms by auto
next
  case (ACall c k)
  with assms have "call_step c k s = Some s'" by simp
  then show ?thesis using assms(2)
    by (cases rule: call_stepE) (auto simp: emit_def set_cpc_def)
next
  case (AClient c)
  with assms have "client_step c s = Some s'" by simp
  then show ?thesis using assms(2)
    by (cases rule: client_stepE) (auto simp: emit_def set_cpc_def Broadcast_def wake_send_def split: if_splits)
qed

lemma step_Pop:
  assumes "step a s = Some s'" and "trace s' = EvPop p # trace s"
  shows "a = AWorker \<and> wpc s = W205 \<and> wpc s' = W206 p \<and>
         (\<exists>h. heap_Pop (store s) (timeouts s) = Some (p, h) \<and> timeouts s' = h) \<and> store s' = store s"
proof (cases a)
  case AWorker
  with assms have "worker_step s = Some s'" by simp
  then show ?thesis using assms(2) AWorker
    by (cases rule: worker_stepE) (auto simp: emit_def split: if_splits)
next
  case ATimer
  then show ?thesis using assms by (auto simp: step_defs split: wpc.splits if_splits)
next
  case AWake
  then show ?thesis using assms by (auto simp: step_defs split: wpc.splits if_splits)
next
  case (ATick n)
  then show ?thesis using assms by auto
next
  case (ACall c k)
  with assms have "call_step c k s = Some s'" by simp
  then show ?thesis using assms(2)
    by (cases rule: call_stepE) (auto simp: emit_def set_cpc_def)
next
  case (AClient c)
  with assms have "client_step c s = Some s'" by simp
  then show ?thesis using assms(2)
    by (cases rule: client_stepE) (auto simp: emit_def set_cpc_def Broadcast_def wake_send_def split: if_splits)
qed

lemma precedes_mem: "precedes a b tr \<Longrightarrow> a \<in> set tr \<and> b \<in> set tr"
  by (induction tr) auto

lemma no_fire_after_stop:
  "reachable s \<Longrightarrow> \<not> precedes (EvStopReturn c) (EvFireBegin p) (trace s)"
proof (induction rule: reachable.induct)
  case (init now)
  show ?case by (simp add: NewDaemon_def)
next
  case (step s a s')
  from step_trace [OF step.hyps(2)] show ?case
  proof
    assume "trace s' = trace s"
    then show ?thesis using step.IH by simp
  next
    assume "\<exists>e. trace s' = e # trace s"
    then obtain e where e: "trace s' = e # trace s" by blast
    show ?thesis
    proof (cases "e = EvFireBegin p")
      case True
      then have "wpc s = W233 p" using step_FireBegin [OF step.hyps(2)] e by simp
      then have "\<not> stopped s" using reachable_inv_stop [OF step.hyps(1)] by (simp add: inv_stop_def)
      then have "EvStopReturn c \<notin> set (trace s)"
        using reachable_inv_stop [OF step.hyps(1)] by (auto simp: inv_stop_def)
      then show ?thesis using e step.IH by simp
    next
      case False
      then show ?thesis using e step.IH by simp
    qed
  qed
qed

subsection \<open>The daemon's heap is ordered\<close>

lemma inv_heap_step:
  assumes "inv_heap s" and ptr: "inv_ptr s" and st: "step a s = Some s'"
  shows "inv_heap s'"
proof -
  have ok: "heap_ok (store s) (timeouts s) (length (timeouts s))"
    using assms(1) by (simp add: inv_heap_def)
  have H: "\<And>p. p \<in> set (timeouts s) \<Longrightarrow> p < length (store s)"
    using ptr by (auto simp: inv_ptr_def)
  show ?thesis
  proof (cases a)
    case AWorker
    with st have "worker_step s = Some s'" by simp
    then show ?thesis
    proof (cases rule: worker_stepE)
      case (W205 to h)
      then show ?thesis using heap_Pop_ok [OF W205(2) ok] by (simp add: inv_heap_def emit_def)
    qed (use ok in \<open>auto simp: inv_heap_def emit_def\<close>)
  next
    case ATimer
    then show ?thesis using st ok unfolding inv_heap_def
      by (auto simp: step_defs split: wpc.splits if_splits)
  next
    case AWake
    then show ?thesis using st ok unfolding inv_heap_def
      by (auto simp: step_defs split: wpc.splits if_splits)
  next
    case (ATick n)
    then show ?thesis using st ok unfolding inv_heap_def by auto
  next
    case (ACall c k)
    with st have "call_step c k s = Some s'" by simp
    then show ?thesis
    proof (cases rule: call_stepE)
      case (CallAddTimeout cb deadline)
      have e: "\<forall>p \<in> set (timeouts s). t (store s ! p) = t ((store s @ [new_Timeout cb deadline]) ! p)"
        using H by (simp add: nth_append)
      have "heap_ok (store s @ [new_Timeout cb deadline]) (timeouts s) (length (timeouts s))"
        by (rule heap_ok_cong [OF e order_refl ok])
      then show ?thesis using CallAddTimeout by (simp add: inv_heap_def set_cpc_def)
    next
      case (CallCancel p)
      have e: "\<forall>q \<in> set (timeouts s). t (store s ! q) = t (Cancel (store s) p ! q)" by simp
      have "heap_ok (Cancel (store s) p) (timeouts s) (length (timeouts s))"
        by (rule heap_ok_cong [OF e order_refl ok])
      then show ?thesis using CallCancel by (simp add: inv_heap_def)
    qed (use ok in \<open>auto simp: inv_heap_def emit_def set_cpc_def\<close>)
  next
    case (AClient c)
    with st have "client_step c s = Some s'" by simp
    then show ?thesis
    proof (cases rule: client_stepE)
      case (A150 to)
      then show ?thesis using heap_Push_ok [OF ok, of to]
        by (simp add: inv_heap_def emit_def set_cpc_def)
    qed (use ok in \<open>auto simp: inv_heap_def emit_def set_cpc_def Broadcast_def wake_send_def\<close>)
  qed
qed

lemma reachable_inv_heap: "reachable s \<Longrightarrow> inv_heap s"
proof (induction rule: reachable.induct)
  case (init now)
  show ?case by (simp add: inv_heap_def NewDaemon_def heap_ok_def)
next
  case (step s a s')
  then show ?case
    using reachable_inv_ptr by (blast intro: inv_heap_step)
qed

lemma heap_min:
  assumes "reachable s" and "q \<in> set (timeouts s)"
  shows "t (store s ! (timeouts s ! 0)) \<le> t (store s ! q)"
proof -
  obtain k where k: "k < length (timeouts s)" "timeouts s ! k = q"
    using assms(2) by (auto simp: in_set_conv_nth)
  have "key (store s) (timeouts s) 0 \<le> key (store s) (timeouts s) k"
    using reachable_inv_heap [OF assms(1)] k(1) unfolding inv_heap_def
    by (rule heap_ok_root_min)
  then show ?thesis using k(2) by (simp add: key_def)
qed

subsection \<open>Each record is pushed, popped and fired at most once\<close>

lemma distinct_heap_Push [simp]: "distinct (heap_Push st h x) \<longleftrightarrow> x \<notin> set h \<and> distinct h"
proof -
  have "mset (heap_Push st h x) = mset (x # h)" by (simp add: mset_heap_Push)
  then have "distinct (heap_Push st h x) \<longleftrightarrow> distinct (x # h)" by (rule mset_eq_imp_distinct_iff)
  then show ?thesis by simp
qed

lemma heap_Pop_distinct:
  assumes "heap_Pop st h = Some (p, h')" and "distinct h"
  shows "distinct h' \<and> p \<notin> set h' \<and> set h = insert p (set h') \<and> p = h ! 0 \<and> h \<noteq> []"
proof -
  have m: "mset h = mset (p # h')" using heap_Pop_Some [OF assms(1)] by simp
  then have "distinct h \<longleftrightarrow> distinct (p # h')" by (rule mset_eq_imp_distinct_iff)
  then show ?thesis using assms(2) heap_Pop_Some [OF assms(1)] heap_Pop_set [OF assms(1)] by simp
qed

lemma last_pop_mem: "last_pop tr = Some p \<Longrightarrow> EvPop p \<in> set tr"
  by (induction tr rule: last_pop.induct) auto

lemma pending_cptr: "pending pc = Some p \<Longrightarrow> cptr pc = Some p"
  by (cases pc) auto

lemma prefire_popped: "prefire pc = Some p \<Longrightarrow> popped pc = Some p"
  by (cases pc) auto

lemma inv_once_step:
  assumes "inv_once s" and ptr: "inv_ptr s" and st: "step a s = Some s'"
  shows "inv_once s'"
proof -
  have O1: "distinct (timeouts s)"
    and O2: "\<And>p. p \<in> set (timeouts s) \<longleftrightarrow> EvPush p \<in> set (trace s) \<and> EvPop p \<notin> set (trace s)"
    and O3: "\<And>p. EvPush p \<in> set (trace s) \<Longrightarrow> p < length (store s)"
    and O4: "\<And>p. EvPop p \<in> set (trace s) \<Longrightarrow> EvPush p \<in> set (trace s)"
    and O5: "\<And>p. EvFireBegin p \<in> set (trace s) \<Longrightarrow> EvPop p \<in> set (trace s)"
    and O6: "\<And>p. popped (wpc s) = Some p \<Longrightarrow> last_pop (trace s) = Some p"
    and O7: "\<And>p. prefire (wpc s) = Some p \<Longrightarrow> EvFireBegin p \<notin> set (trace s)"
    and O8: "\<And>c p. pending (clients s c) = Some p \<Longrightarrow> EvPush p \<notin> set (trace s)"
    and O9: "\<And>c c' p. c \<noteq> c' \<Longrightarrow> pending (clients s c) = Some p \<Longrightarrow> pending (clients s c') \<noteq> Some p"
    using assms(1) unfolding inv_once_def by blast+
  have Cp: "\<And>c p. cptr (clients s c) = Some p \<Longrightarrow> p < length (store s)"
    using ptr by (auto simp: inv_ptr_def)
  note O = O1 O2 O3 O4 O5 O6 O7 O8
  show ?thesis
  proof (cases a)
    case AWorker
    with st have "worker_step s = Some s'" by simp
    then show ?thesis
    proof (cases rule: worker_stepE)
      case (W205 to h)
      have d: "distinct h" "to \<notin> set h" "set (timeouts s) = insert to (set h)"
        using heap_Pop_distinct [OF W205(2) O1] by auto
      have inh: "to \<in> set (timeouts s)" using d(3) by simp
      then have np: "EvPop to \<notin> set (trace s)" and pu: "EvPush to \<in> set (trace s)"
        using O2 by auto
      have nf: "EvFireBegin to \<notin> set (trace s)" using np O5 by blast
      have mem: "\<And>p. p \<in> set h \<longleftrightarrow> EvPush p \<in> set (trace s) \<and> EvPop p \<notin> set (trace s) \<and> p \<noteq> to"
        using O2 d(2,3) by auto
      show ?thesis
        unfolding inv_once_def using W205 d(1) mem pu nf O3 O4 O5 O8 O9
        by (auto simp: emit_def)
    next
      case (W233 to)
      then show ?thesis unfolding inv_once_def using O O9 O6 [of to] last_pop_mem [of "trace s" to]
        by (auto simp: emit_def)
    qed (use O O9 in \<open>auto simp: inv_once_def emit_def\<close>)
  next
    case ATimer
    then show ?thesis using st O O9 unfolding inv_once_def
      by (auto simp: step_defs split: wpc.splits if_splits)
  next
    case AWake
    then show ?thesis using st O O9 unfolding inv_once_def
      by (auto simp: step_defs split: wpc.splits if_splits)
  next
    case (ATick n)
    then show ?thesis using st O O9 unfolding inv_once_def by auto
  next
    case (ACall c k)
    with st have "call_step c k s = Some s'" by simp
    then show ?thesis
    proof (cases rule: call_stepE)
      case (CallAddTimeout cb deadline)
      have new: "EvPush (length (store s)) \<notin> set (trace s)" using O3 by blast
      have oth: "\<And>c' p. pending (clients s c') = Some p \<Longrightarrow> p \<noteq> length (store s)"
        using Cp pending_cptr by blast
      show ?thesis
        unfolding inv_once_def using CallAddTimeout new oth O O9
        by (auto simp: set_cpc_def less_Suc_eq)
    qed (use O O9 in \<open>auto simp: inv_once_def emit_def set_cpc_def\<close>)
  next
    case (AClient c)
    with st have "client_step c s = Some s'" by simp
    then show ?thesis
    proof (cases rule: client_stepE)
      case (A149 to)
      have npu: "EvPush to \<notin> set (trace s)" using O8 [of c to] A149 by simp
      have oth: "\<And>c' p. c' \<noteq> c \<Longrightarrow> pending (clients s c') = Some p \<Longrightarrow> p \<noteq> to"
        using O9 [of _ c] A149 by auto
      show ?thesis unfolding inv_once_def using A149 npu oth O O9
        by (auto simp: emit_def set_cpc_def)
    next
      case (A150 to)
      have npu: "EvPush to \<notin> set (trace s)" using O8 [of c to] A150 by simp
      then have nin: "to \<notin> set (timeouts s)" and npo: "EvPop to \<notin> set (trace s)"
        using O2 O4 by auto
      have lt: "to < length (store s)" using Cp [of c to] A150 by simp
      have oth: "\<And>c' p. c' \<noteq> c \<Longrightarrow> pending (clients s c') = Some p \<Longrightarrow> p \<noteq> to"
        using O9 [of _ c] A150 by auto
      show ?thesis
        unfolding inv_once_def using A150 npu nin npo lt oth O O9
        by (auto simp: emit_def set_cpc_def)
    qed (use O O9 in \<open>auto simp: inv_once_def emit_def set_cpc_def Broadcast_def wake_send_def\<close>)
  qed
qed

lemma reachable_inv_once: "reachable s \<Longrightarrow> inv_once s"
proof (induction rule: reachable.induct)
  case (init now)
  show ?case by (simp add: inv_once_def NewDaemon_def)
next
  case (step s a s')
  then show ?case
    using reachable_inv_ptr by (blast intro: inv_once_step)
qed

lemma step_Push:
  assumes "step a s = Some s'" and "trace s' = EvPush p # trace s"
  shows "\<exists>c. a = AClient c \<and> clients s c = A150 p"
proof (cases a)
  case AWorker
  with assms have "worker_step s = Some s'" by simp
  then show ?thesis using assms(2)
    by (cases rule: worker_stepE) (auto simp: emit_def split: if_splits)
next
  case ATimer
  then show ?thesis using assms by (auto simp: step_defs split: wpc.splits if_splits)
next
  case AWake
  then show ?thesis using assms by (auto simp: step_defs split: wpc.splits if_splits)
next
  case (ATick n)
  then show ?thesis using assms by auto
next
  case (ACall c k)
  with assms have "call_step c k s = Some s'" by simp
  then show ?thesis using assms(2)
    by (cases rule: call_stepE) (auto simp: emit_def set_cpc_def)
next
  case (AClient c)
  with assms have "client_step c s = Some s'" by simp
  then show ?thesis using assms(2) AClient
    by (cases rule: client_stepE) (auto simp: emit_def set_cpc_def Broadcast_def wake_send_def split: if_splits)
qed

text \<open>The store only grows, deadlines never change, and a cancel flag that is set
  stays set.\<close>

lemma cancel_Cancel: "p < length st \<Longrightarrow> cancel (Cancel st p ! p) = 1"
  by (simp add: Cancel_def)

lemma cancel_Cancel_other: "q \<noteq> p \<Longrightarrow> cancel (Cancel st p ! q) = cancel (st ! q)"
  by (simp add: Cancel_def)

lemma step_store:
  assumes "step a s = Some s'" and "p < length (store s)"
  shows "p < length (store s') \<and> t (store s' ! p) = t (store s ! p) \<and> f (store s' ! p) = f (store s ! p) \<and>
         (cancel (store s ! p) = 1 \<longrightarrow> cancel (store s' ! p) = 1) \<and>
         (cancel (store s' ! p) = 0 \<longrightarrow> cancel (store s ! p) = 0)"
proof (cases a)
  case AWorker
  with assms have "worker_step s = Some s'" by simp
  then show ?thesis using assms(2)
    by (cases rule: worker_stepE) (auto simp: emit_def)
next
  case ATimer
  then show ?thesis using assms by (auto simp: step_defs split: wpc.splits if_splits)
next
  case AWake
  then show ?thesis using assms by (auto simp: step_defs split: wpc.splits if_splits)
next
  case (ATick n)
  then show ?thesis using assms by auto
next
  case (ACall c k)
  with assms have "call_step c k s = Some s'" by simp
  then show ?thesis using assms(2)
  proof (cases rule: call_stepE)
    case (CallCancel q)
    then show ?thesis using assms(2)
      by (cases "q = p") (auto simp: Cancel_def nth_list_update)
  qed (auto simp: emit_def set_cpc_def nth_append)
next
  case (AClient c)
  with assms have "client_step c s = Some s'" by simp
  then show ?thesis using assms(2)
    by (cases rule: client_stepE) (auto simp: emit_def set_cpc_def Broadcast_def wake_send_def)
qed

lemma step_popped:
  assumes "step a s = Some s'" and "popped (wpc s') = Some p"
  shows "popped (wpc s) = Some p \<or> trace s' = EvPop p # trace s"
proof (cases a)
  case AWorker
  with assms have "worker_step s = Some s'" by simp
  then show ?thesis using assms(2)
    by (cases rule: worker_stepE) (auto simp: emit_def split: if_splits)
next
  case ATimer
  then show ?thesis using assms by (auto simp: step_defs split: wpc.splits if_splits)
next
  case AWake
  then show ?thesis using assms by (auto simp: step_defs split: wpc.splits if_splits)
next
  case (ATick n)
  then show ?thesis using assms by auto
next
  case (ACall c k)
  with assms have "call_step c k s = Some s'" by simp
  then show ?thesis using assms(2)
    by (cases rule: call_stepE) (auto simp: emit_def set_cpc_def)
next
  case (AClient c)
  with assms have "client_step c s = Some s'" by simp
  then show ?thesis using assms(2)
    by (cases rule: client_stepE) (auto simp: emit_def set_cpc_def Broadcast_def wake_send_def split: if_splits)
qed

lemma count_list_new: "x \<notin> set xs \<Longrightarrow> count_list (x # xs) x = 1"
  by (simp add: count_list_0_iff)

lemma reachable_inv_count: "reachable s \<Longrightarrow> inv_count s"
proof (induction rule: reachable.induct)
  case (init now)
  show ?case by (simp add: inv_count_def NewDaemon_def)
next
  case (step s a s')
  have once: "inv_once s" by (rule reachable_inv_once [OF step.hyps(1)])
  have O2: "\<And>p. p \<in> set (timeouts s) \<Longrightarrow> EvPop p \<notin> set (trace s)"
    and O7: "\<And>p. prefire (wpc s) = Some p \<Longrightarrow> EvFireBegin p \<notin> set (trace s)"
    and O8: "\<And>c p. pending (clients s c) = Some p \<Longrightarrow> EvPush p \<notin> set (trace s)"
    using once unfolding inv_once_def by blast+
  from step_trace [OF step.hyps(2)] show ?case
  proof
    assume "trace s' = trace s"
    then show ?thesis using step.IH by (simp add: inv_count_def)
  next
    assume "\<exists>e. trace s' = e # trace s"
    then obtain e where e: "trace s' = e # trace s" by blast
    have new: "(\<forall>p. e \<noteq> EvPush p \<and> e \<noteq> EvPop p \<and> e \<noteq> EvFireBegin p) \<or> e \<notin> set (trace s)"
    proof (cases e)
      case (EvPush p)
      with e have "trace s' = EvPush p # trace s" by simp
      from step_Push [OF step.hyps(2) this] obtain c where "clients s c = A150 p" by blast
      then have "pending (clients s c) = Some p" by simp
      then show ?thesis using O8 EvPush by blast
    next
      case (EvPop p)
      with e have "trace s' = EvPop p # trace s" by simp
      from step_Pop [OF step.hyps(2) this] obtain h where "heap_Pop (store s) (timeouts s) = Some (p, h)"
        by blast
      then have "set (timeouts s) = insert p (set h)" by (rule heap_Pop_set)
      then have "p \<in> set (timeouts s)" by simp
      then show ?thesis using O2 EvPop by blast
    next
      case (EvFireBegin p)
      with e have "trace s' = EvFireBegin p # trace s" by simp
      from step_FireBegin [OF step.hyps(2) this] have "wpc s = W233 p" by simp
      then have "prefire (wpc s) = Some p" by simp
      then show ?thesis using O7 EvFireBegin by blast
    qed simp_all
    then show ?thesis
    proof
      assume "\<forall>p. e \<noteq> EvPush p \<and> e \<noteq> EvPop p \<and> e \<noteq> EvFireBegin p"
      then show ?thesis using step.IH e by (simp add: inv_count_def)
    next
      assume n: "e \<notin> set (trace s)"
      then have z: "count_list (trace s) e = 0" by (simp add: count_list_0_iff)
      show ?thesis
        unfolding inv_count_def
      proof (intro allI conjI)
        fix p
        show "count_list (trace s') (EvPush p) \<le> 1"
          using step.IH e z by (cases "e = EvPush p") (auto simp: inv_count_def)
        show "count_list (trace s') (EvPop p) \<le> 1"
          using step.IH e z by (cases "e = EvPop p") (auto simp: inv_count_def)
        show "count_list (trace s') (EvFireBegin p) \<le> 1"
          using step.IH e z by (cases "e = EvFireBegin p") (auto simp: inv_count_def)
      qed
    qed
  qed
qed

subsection \<open>The worker handles one record at a time, in the order of the heap\<close>

lemma inv_seq_step:
  assumes "inv_seq s" and once: "inv_once s" and st: "step a s = Some s'"
  shows "inv_seq s'"
proof -
  have S1: "\<forall>r. EvFireBegin r \<in> set (trace s) \<longrightarrow> EvFireEnd r \<in> set (trace s) \<or> wpc s = W233_running r"
    and S2: "\<forall>r. EvPop r \<in> set (trace s) \<and> cancel (store s ! r) = 0 \<longrightarrow>
               EvFireEnd r \<in> set (trace s) \<or> popped (wpc s) = Some r \<or> halted (wpc s)"
    using assms(1) unfolding inv_seq_def by blast+
  have lt: "\<And>r. EvPop r \<in> set (trace s) \<Longrightarrow> r < length (store s)"
    using once unfolding inv_once_def by blast
  show ?thesis
  proof (cases a)
    case AWorker
    with st have "worker_step s = Some s'" by simp
    then show ?thesis
    proof (cases rule: worker_stepE)
      case (W206 to)
      then show ?thesis unfolding inv_seq_def using S1 S2 by (auto simp: emit_def)
    next
      case (W230 to)
      then show ?thesis unfolding inv_seq_def using S1 S2 by (auto simp: emit_def)
    qed (use S1 S2 in \<open>auto simp: inv_seq_def emit_def\<close>)
  next
    case ATimer
    then show ?thesis using st S1 S2 unfolding inv_seq_def
      by (auto simp: step_defs split: wpc.splits if_splits)
  next
    case AWake
    then show ?thesis using st S1 S2 unfolding inv_seq_def
      by (auto simp: step_defs split: wpc.splits if_splits)
  next
    case (ATick n)
    then show ?thesis using st S1 S2 unfolding inv_seq_def by auto
  next
    case (ACall c k)
    have keep: "\<And>r. EvPop r \<in> set (trace s) \<Longrightarrow> cancel (store s' ! r) = 0 \<Longrightarrow> cancel (store s ! r) = 0"
      using step_store [OF st] lt by blast
    from ACall st have "call_step c k s = Some s'" by simp
    then show ?thesis
    proof (cases rule: call_stepE)
      case (CallAddTimeout cb deadline)
      then show ?thesis unfolding inv_seq_def using S1 S2 keep
        by (auto simp: set_cpc_def)
    next
      case (CallCancel p)
      then show ?thesis unfolding inv_seq_def using S1 S2 keep
        by auto
    qed (use S1 S2 in \<open>auto simp: inv_seq_def emit_def set_cpc_def\<close>)
  next
    case (AClient c)
    with st have "client_step c s = Some s'" by simp
    then show ?thesis
      by (cases rule: client_stepE)
        (use S1 S2 in \<open>auto simp: inv_seq_def emit_def set_cpc_def Broadcast_def wake_send_def\<close>)
  qed
qed

lemma reachable_inv_seq: "reachable s \<Longrightarrow> inv_seq s"
proof (induction rule: reachable.induct)
  case (init now)
  show ?case by (simp add: inv_seq_def NewDaemon_def)
next
  case (step s a s')
  then show ?case
    using reachable_inv_once by (blast intro: inv_seq_step)
qed

lemma precedes_Cons_other: "e \<noteq> b \<Longrightarrow> precedes a b (e # tr) = precedes a b tr"
  by simp

lemma reachable_inv_order: "reachable s \<Longrightarrow> inv_order s"
proof (induction rule: reachable.induct)
  case (init now)
  show ?case by (simp add: inv_order_def NewDaemon_def)
next
  case (step s a s')
  have once: "inv_once s" by (rule reachable_inv_once [OF step.hyps(1)])
  have O2: "\<And>p. p \<in> set (timeouts s) \<longleftrightarrow> EvPush p \<in> set (trace s) \<and> EvPop p \<notin> set (trace s)"
    and O3: "\<And>p. EvPush p \<in> set (trace s) \<Longrightarrow> p < length (store s)"
    and O4: "\<And>p. EvPop p \<in> set (trace s) \<Longrightarrow> EvPush p \<in> set (trace s)"
    using once unfolding inv_once_def by blast+
  have K: "\<And>r1 r2. precedes (EvPush r1) (EvPop r2) (trace s) \<Longrightarrow> t (store s ! r1) < t (store s ! r2) \<Longrightarrow>
             EvPop r1 \<in> set (trace s) \<and> popped (wpc s) \<noteq> Some r1"
    using step.IH unfolding inv_order_def by blast
  have tt: "\<And>p. EvPush p \<in> set (trace s) \<Longrightarrow> t (store s' ! p) = t (store s ! p)"
    using step_store [OF step.hyps(2)] O3 by blast
  show ?case
    unfolding inv_order_def
  proof (intro allI impI)
    fix r1 r2
    assume h: "precedes (EvPush r1) (EvPop r2) (trace s') \<and> t (store s' ! r1) < t (store s' ! r2)"
    show "EvPop r1 \<in> set (trace s') \<and> popped (wpc s') \<noteq> Some r1"
    proof (cases "\<exists>p. trace s' = EvPop p # trace s")
      case True
      then obtain p where p: "trace s' = EvPop p # trace s" by blast
      from step_Pop [OF step.hyps(2) p] obtain h' where
        pc: "wpc s = W205" "wpc s' = W206 p" and pop: "heap_Pop (store s) (timeouts s) = Some (p, h')"
        and st: "store s' = store s"
        by blast
      have pin: "p \<in> set (timeouts s)" and p0: "p = timeouts s ! 0"
        using heap_Pop_set [OF pop] heap_Pop_Some [OF pop] by auto
      have pnp: "EvPop p \<notin> set (trace s)" using pin O2 by blast
      have "EvPop r1 \<in> set (trace s)"
      proof (cases "precedes (EvPush r1) (EvPop r2) (trace s)")
        case True
        then show ?thesis using K h st by simp
      next
        case False
        then have r2: "r2 = p" and pu: "EvPush r1 \<in> set (trace s)" using h p by auto
        have "r1 \<notin> set (timeouts s)"
        proof
          assume "r1 \<in> set (timeouts s)"
          then have "t (store s ! p) \<le> t (store s ! r1)"
            using heap_min [OF step.hyps(1)] p0 by simp
          then show False using h r2 st by simp
        qed
        then show ?thesis using O2 pu by blast
      qed
      moreover from this have "r1 \<noteq> p" using pnp by blast
      ultimately show ?thesis using p pc by simp
    next
      case False
      have same: "precedes (EvPush r1) (EvPop r2) (trace s)"
        using step_trace [OF step.hyps(2)] h False by auto
      then have mem: "EvPush r1 \<in> set (trace s)" "EvPop r2 \<in> set (trace s)"
        using precedes_mem by blast+
      then have "t (store s ! r1) < t (store s ! r2)" using h tt O4 by simp
      then have k: "EvPop r1 \<in> set (trace s)" "popped (wpc s) \<noteq> Some r1" using K same by blast+
      have "EvPop r1 \<in> set (trace s')" using step_trace [OF step.hyps(2)] k(1) by auto
      moreover have "popped (wpc s') \<noteq> Some r1"
        using step_popped [OF step.hyps(2), of r1] k(2) False by blast
      ultimately show ?thesis by simp
    qed
  qed
qed

lemma reachable_inv_fire_order: "reachable s \<Longrightarrow> inv_fire_order s"
proof (induction rule: reachable.induct)
  case (init now)
  show ?case by (simp add: inv_fire_order_def NewDaemon_def)
next
  case (step s a s')
  have once: "inv_once s" by (rule reachable_inv_once [OF step.hyps(1)])
  have O2: "\<And>p. p \<in> set (timeouts s) \<longleftrightarrow> EvPush p \<in> set (trace s) \<and> EvPop p \<notin> set (trace s)"
    and O3: "\<And>p. EvPush p \<in> set (trace s) \<Longrightarrow> p < length (store s)"
    and O4: "\<And>p. EvPop p \<in> set (trace s) \<Longrightarrow> EvPush p \<in> set (trace s)"
    and O5: "\<And>p. EvFireBegin p \<in> set (trace s) \<Longrightarrow> EvPop p \<in> set (trace s)"
    using once unfolding inv_once_def by blast+
  have K: "\<And>r1 r2. precedes (EvPush r1) (EvPop r2) (trace s) \<Longrightarrow> t (store s ! r1) < t (store s ! r2) \<Longrightarrow>
             EvPop r1 \<in> set (trace s) \<and> popped (wpc s) \<noteq> Some r1"
    using reachable_inv_order [OF step.hyps(1)] unfolding inv_order_def by blast
  have S2: "\<And>r. EvPop r \<in> set (trace s) \<Longrightarrow> cancel (store s ! r) = 0 \<Longrightarrow>
               EvFireEnd r \<in> set (trace s) \<or> popped (wpc s) = Some r \<or> halted (wpc s)"
    using reachable_inv_seq [OF step.hyps(1)] unfolding inv_seq_def by blast
  have G: "\<And>r1 r2. t (store s ! r1) < t (store s ! r2) \<Longrightarrow> precedes (EvPush r1) (EvPop r2) (trace s) \<Longrightarrow>
             cancel (store s ! r1) = 0 \<Longrightarrow> EvFireBegin r2 \<in> set (trace s) \<Longrightarrow>
             precedes (EvFireEnd r1) (EvFireBegin r2) (trace s)"
    using step.IH unfolding inv_fire_order_def by blast
  have tt: "\<And>p. EvPush p \<in> set (trace s) \<Longrightarrow> t (store s' ! p) = t (store s ! p)"
    and cc: "\<And>p. EvPush p \<in> set (trace s) \<Longrightarrow> cancel (store s' ! p) = 0 \<Longrightarrow> cancel (store s ! p) = 0"
    using step_store [OF step.hyps(2)] O3 by blast+
  show ?case
    unfolding inv_fire_order_def
  proof (intro allI impI)
    fix r1 r2
    assume h: "t (store s' ! r1) < t (store s' ! r2) \<and> precedes (EvPush r1) (EvPop r2) (trace s') \<and>
               cancel (store s' ! r1) = 0 \<and> EvFireBegin r2 \<in> set (trace s')"
    from step_trace [OF step.hyps(2)]
    show "precedes (EvFireEnd r1) (EvFireBegin r2) (trace s')"
    proof
      assume same: "trace s' = trace s"
      then have pr: "precedes (EvPush r1) (EvPop r2) (trace s)" using h by simp
      then have mem: "EvPush r1 \<in> set (trace s)" "EvPop r2 \<in> set (trace s)"
        using precedes_mem by blast+
      then have "t (store s ! r1) < t (store s ! r2)" "cancel (store s ! r1) = 0"
        using h tt cc O4 by simp_all
      then show ?thesis using G pr h same by simp
    next
      assume "\<exists>e. trace s' = e # trace s"
      then obtain e where e: "trace s' = e # trace s" by blast
      show ?thesis
      proof (cases "precedes (EvPush r1) (EvPop r2) (trace s)")
        case pr: True
        then have mem: "EvPush r1 \<in> set (trace s)" "EvPop r2 \<in> set (trace s)"
          using precedes_mem by blast+
        then have lt: "t (store s ! r1) < t (store s ! r2)" and c0: "cancel (store s ! r1) = 0"
          using h tt cc O4 by simp_all
        show ?thesis
        proof (cases "EvFireBegin r2 \<in> set (trace s)")
          case True
          then have "precedes (EvFireEnd r1) (EvFireBegin r2) (trace s)" using G lt pr c0 by blast
          then show ?thesis using e by simp
        next
          case False
          then have e2: "e = EvFireBegin r2" using h e by simp
          then have "trace s' = EvFireBegin r2 # trace s" using e by simp
          from step_FireBegin [OF step.hyps(2) this] have pc: "wpc s = W233 r2" by simp
          have k: "EvPop r1 \<in> set (trace s)" "popped (wpc s) \<noteq> Some r1" using K pr lt by blast+
          then have "EvFireEnd r1 \<in> set (trace s)" using S2 [OF k(1) c0] pc by auto
          then show ?thesis using e e2 by simp
        qed
      next
        case False
        then have p: "e = EvPop r2" using h e by auto
        then have "trace s' = EvPop r2 # trace s" using e by simp
        from step_Pop [OF step.hyps(2) this] obtain h' where
          pop: "heap_Pop (store s) (timeouts s) = Some (r2, h')" by blast
        have "r2 \<in> set (timeouts s)" using heap_Pop_set [OF pop] by simp
        then have "EvPop r2 \<notin> set (trace s)" using O2 by blast
        then have "EvFireBegin r2 \<notin> set (trace s)" using O5 by blast
        then have False using h e p by simp
        then show ?thesis ..
      qed
    qed
  qed
qed

subsection \<open>The order of the releases after a callback\<close>

lemma inv_release_step:
  assumes "inv_release s" and st: "step a s = Some s'"
  shows "inv_release s'"
proof -
  have R: "\<forall>ls. released_since_fire (trace s) = Some ls \<longrightarrow>
             (wpc s = W235 \<and> ls = []) \<or> (wpc s = W237 \<and> ls = [Locker]) \<or>
             (\<exists>rest. ls = Locker # Mu # rest)"
    using assms(1) unfolding inv_release_def by blast
  show ?thesis
  proof (cases a)
    case AWorker
    with st have "worker_step s = Some s'" by simp
    then show ?thesis
      by (cases rule: worker_stepE) (use R in \<open>auto simp: inv_release_def emit_def\<close>)
  next
    case ATimer
    then show ?thesis using st R unfolding inv_release_def
      by (auto simp: step_defs split: wpc.splits if_splits)
  next
    case AWake
    then show ?thesis using st R unfolding inv_release_def
      by (auto simp: step_defs split: wpc.splits if_splits)
  next
    case (ATick n)
    then show ?thesis using st R unfolding inv_release_def by auto
  next
    case (ACall c k)
    with st have "call_step c k s = Some s'" by simp
    then show ?thesis
      by (cases rule: call_stepE) (use R in \<open>auto simp: inv_release_def emit_def set_cpc_def\<close>)
  next
    case (AClient c)
    with st have "client_step c s = Some s'" by simp
    then show ?thesis
      by (cases rule: client_stepE)
        (use R in \<open>auto simp: inv_release_def emit_def set_cpc_def Broadcast_def wake_send_def\<close>)
  qed
qed

lemma reachable_inv_release: "reachable s \<Longrightarrow> inv_release s"
proof (induction rule: reachable.induct)
  case (init now)
  show ?case by (simp add: inv_release_def NewDaemon_def)
next
  case (step s a s')
  then show ?case by (blast intro: inv_release_step)
qed

subsection \<open>Every record is pushed by the call that made it\<close>

lemma step_pending:
  assumes "step a s = Some s'" and "pending (clients s c') = Some p"
  shows "pending (clients s' c') = Some p \<or> trace s' = EvPush p # trace s"
proof (cases a)
  case AWorker
  with assms have "worker_step s = Some s'" by simp
  then show ?thesis using assms(2)
    by (cases rule: worker_stepE) (auto simp: emit_def)
next
  case ATimer
  then show ?thesis using assms by (auto simp: step_defs split: wpc.splits if_splits)
next
  case AWake
  then show ?thesis using assms by (auto simp: step_defs split: wpc.splits if_splits)
next
  case (ATick n)
  then show ?thesis using assms by auto
next
  case (ACall c k)
  with assms have "call_step c k s = Some s'" by simp
  then show ?thesis using assms(2)
    by (cases rule: call_stepE) (cases "c' = c"; auto simp: emit_def set_cpc_def)+
next
  case (AClient c)
  with assms have "client_step c s = Some s'" by simp
  then show ?thesis using assms(2)
    by (cases rule: client_stepE)
      (cases "c' = c"; auto simp: emit_def set_cpc_def Broadcast_def wake_send_def)+
qed

lemma step_alloc:
  assumes "step a s = Some s'"
  shows "length (store s') = length (store s) \<or>
         (\<exists>c. length (store s') = Suc (length (store s)) \<and> pending (clients s' c) = Some (length (store s)))"
proof (cases a)
  case AWorker
  with assms have "worker_step s = Some s'" by simp
  then show ?thesis
    by (cases rule: worker_stepE) (auto simp: emit_def)
next
  case ATimer
  then show ?thesis using assms by (auto simp: step_defs split: wpc.splits if_splits)
next
  case AWake
  then show ?thesis using assms by (auto simp: step_defs split: wpc.splits if_splits)
next
  case (ATick n)
  then show ?thesis using assms by auto
next
  case (ACall c k)
  with assms have "call_step c k s = Some s'" by simp
  then show ?thesis
  proof (cases rule: call_stepE)
    case (CallAddTimeout cb deadline)
    then have "length (store s') = Suc (length (store s)) \<and> pending (clients s' c) = Some (length (store s))"
      by (simp add: set_cpc_def)
    then show ?thesis by blast
  qed (auto simp: emit_def set_cpc_def)
next
  case (AClient c)
  with assms have "client_step c s = Some s'" by simp
  then show ?thesis
    by (cases rule: client_stepE) (auto simp: emit_def set_cpc_def Broadcast_def wake_send_def)
qed

lemma inv_alloc_step:
  assumes "inv_alloc s" and st: "step a s = Some s'"
  shows "inv_alloc s'"
  unfolding inv_alloc_def
proof (intro allI impI)
  fix p assume p: "p < length (store s')"
  have A: "\<And>q. q < length (store s) \<Longrightarrow> (\<exists>c. pending (clients s c) = Some q) \<or> EvPush q \<in> set (trace s)"
    using assms(1) unfolding inv_alloc_def by blast
  have sub: "set (trace s) \<subseteq> set (trace s')" using step_trace [OF st] by auto
  show "(\<exists>c. pending (clients s' c) = Some p) \<or> EvPush p \<in> set (trace s')"
  proof (cases "p < length (store s)")
    case True
    from A [OF True] show ?thesis
    proof
      assume "\<exists>c. pending (clients s c) = Some p"
      then obtain c where "pending (clients s c) = Some p" by blast
      from step_pending [OF st this] show ?thesis by auto
    next
      assume "EvPush p \<in> set (trace s)"
      then show ?thesis using sub by blast
    qed
  next
    case False
    then obtain c where "length (store s') = Suc (length (store s))"
      and c: "pending (clients s' c) = Some (length (store s))"
      using step_alloc [OF st] p by auto
    then have "p = length (store s)" using False p by simp
    then show ?thesis using c by blast
  qed
qed

lemma reachable_inv_alloc: "reachable s \<Longrightarrow> inv_alloc s"
proof (induction rule: reachable.induct)
  case (init now)
  show ?case by (simp add: inv_alloc_def NewDaemon_def)
next
  case (step s a s')
  then show ?case by (blast intro: inv_alloc_step)
qed

subsection \<open>Sequences of heap operations\<close>

lemma heap_run_ok:
  "heap_ok st h (length h) \<Longrightarrow> heap_run st ops h = Some h' \<Longrightarrow> heap_ok st h' (length h')"
proof (induction ops arbitrary: h)
  case Nil
  then show ?case by simp
next
  case (Cons op ops)
  show ?case
  proof (cases op)
    case (OpPush x)
    have "heap_ok st (heap_Push st h x) (length (heap_Push st h x))"
      using heap_Push_ok [OF Cons.prems(1), of x] by simp
    moreover have "heap_run st ops (heap_Push st h x) = Some h'" using Cons.prems(2) OpPush by simp
    ultimately show ?thesis by (rule Cons.IH)
  next
    case OpPop
    then obtain p h1 where pop: "heap_Pop st h = Some (p, h1)" and run: "heap_run st ops h1 = Some h'"
      using Cons.prems(2) by (auto split: option.splits)
    have "heap_ok st h1 (length h1)" using heap_Pop_ok [OF pop Cons.prems(1)] .
    then show ?thesis using Cons.IH run by blast
  qed
qed

section \<open>The claims\<close>

subsection \<open>Evaluating schedules\<close>

lemma up_0 [simp]: "up st h 0 = h"
  by (subst up.simps) simp

lemma up_1: "up st h (Suc 0) = (if Less st h (Suc 0) 0 then Swap h 0 (Suc 0) else h)"
  by (subst up.simps) simp

lemma heap_Push_Nil [simp]: "heap_Push st [] x = [x]"
  by (simp add: heap_Push_def Push_def Len_def)

lemma heap_Push_single:
  "heap_Push st [a] x = (if t (st ! x) < t (st ! a) then [x, a] else [a, x])"
  by (simp add: heap_Push_def Push_def Len_def up_1 Less_def Before_def Swap_def)

lemma heap_Pop_single [simp]: "heap_Pop st [a] = Some (a, [])"
  by (simp add: heap_Pop_def Pop_def Len_def Swap_def down_stop1)

lemma heap_Pop_two [simp]: "heap_Pop st [a, b] = Some (a, [b])"
  by (simp add: heap_Pop_def Pop_def Len_def Swap_def down_stop1)

lemmas eval_defs = step_defs NewDaemon_def new_Timeout_def Len_def After_def Cancel_def heap_Push_single

lemmas sc_defs = sc_added_def sc_at188_def sc_at205_def sc_at211_def sc_at233_def sc_running_def
  sc_done_def sc_stop_race_def sc_stop_in_callback_def sc_late_def sc_two_pushed_def sc_two_def
  sc_equal_def

lemma run_append: "run (as @ bs) s = (case run as s of None \<Rightarrow> None | Some s' \<Rightarrow> run bs s')"
  by (induction as arbitrary: s) (auto split: option.splits)

lemma reachable_NewDaemon_run: "run as (NewDaemon now) = Some s \<Longrightarrow> reachable s"
  using reachable_run [OF reachable.init] .

subsection \<open>C1: no callback before its deadline\<close>

text \<open>
  C1. For every timeout record whose callback is invoked by the worker, the monotonic
  clock at the entry of the invocation is at or after the record's deadline: in every
  reachable state, the transition that begins the callback of record \<open>p\<close> is taken
  when the clock has reached \<open>t\<close> of \<open>p\<close>; and the transition that pops \<open>p\<close> pops the
  record that \<^verbatim>\<open>peek\<close> returns, after the worker has observed that the clock is past
  its deadline.
\<close>

theorem C1_fire_not_before_deadline:
  assumes "reachable s" and "step a s = Some s'"
  shows "(trace s' = EvFireBegin p # trace s \<longrightarrow> t (store s ! p) \<le> clock s) \<and>
         (trace s' = EvPop p # trace s \<longrightarrow> peek (timeouts s) = Some p \<and> t (store s ! p) < clock s)"
proof (rule conjI; rule impI)
  assume "trace s' = EvFireBegin p # trace s"
  from step_FireBegin [OF assms(2) this] have "popped (wpc s) = Some p" by simp
  then have "t (store s ! p) < clock s"
    using reachable_inv_deadline [OF assms(1)] by (simp add: inv_deadline_def)
  then show "t (store s ! p) \<le> clock s" by simp
next
  assume "trace s' = EvPop p # trace s"
  from step_Pop [OF assms(2) this] obtain h where
    pc: "wpc s = W205" and pop: "heap_Pop (store s) (timeouts s) = Some (p, h)" by blast
  have ne: "timeouts s \<noteq> []" and p0: "p = timeouts s ! 0" using heap_Pop_Some [OF pop] by auto
  have "peek (timeouts s) = Some p" using ne p0 by (cases "timeouts s") auto
  moreover have "t (store s ! p) < clock s"
    using reachable_inv_deadline [OF assms(1)] pc p0 by (simp add: inv_deadline_def)
  ultimately show "peek (timeouts s) = Some p \<and> t (store s ! p) < clock s" by simp
qed

theorem C1_witness:
  "(\<exists>s s'. run sc_at233 (NewDaemon 0) = Some s \<and> step AWorker s = Some s' \<and>
      trace s' = EvFireBegin 0 # trace s \<and> t (store s ! 0) = 5 \<and> clock s = 10 \<and>
      t (store s ! 0) \<le> clock s) \<and>
   (\<exists>s s'. run sc_at205 (NewDaemon 0) = Some s \<and> step AWorker s = Some s' \<and>
      trace s' = EvPop 0 # trace s \<and> peek (timeouts s) = Some 0 \<and> t (store s ! 0) < clock s)"
proof (intro conjI)
  define s where "s = the (run sc_at233 (NewDaemon 0))"
  define s' where "s' = the (step AWorker s)"
  have r: "run sc_at233 (NewDaemon 0) = Some s"
    unfolding s_def by (simp add: sc_defs eval_defs)
  have st: "step AWorker s = Some s'"
    unfolding s'_def s_def by (simp add: sc_defs eval_defs)
  have tr: "trace s' = EvFireBegin 0 # trace s"
    unfolding s'_def s_def by (simp add: sc_defs eval_defs)
  have v: "t (store s ! 0) = 5" "clock s = 10"
    unfolding s_def by (simp_all add: sc_defs eval_defs)
  have "t (store s ! 0) \<le> clock s"
    using C1_fire_not_before_deadline [OF reachable_NewDaemon_run [OF r] st, of 0] tr by simp
  then show "\<exists>s s'. run sc_at233 (NewDaemon 0) = Some s \<and> step AWorker s = Some s' \<and>
      trace s' = EvFireBegin 0 # trace s \<and> t (store s ! 0) = 5 \<and> clock s = 10 \<and>
      t (store s ! 0) \<le> clock s"
    using r st tr v by blast
next
  define s where "s = the (run sc_at205 (NewDaemon 0))"
  define s' where "s' = the (step AWorker s)"
  have r: "run sc_at205 (NewDaemon 0) = Some s"
    unfolding s_def by (simp add: sc_defs eval_defs)
  have st: "step AWorker s = Some s'"
    unfolding s'_def s_def by (simp add: sc_defs eval_defs)
  have tr: "trace s' = EvPop 0 # trace s"
    unfolding s'_def s_def by (simp add: sc_defs eval_defs)
  have "peek (timeouts s) = Some 0 \<and> t (store s ! 0) < clock s"
    using C1_fire_not_before_deadline [OF reachable_NewDaemon_run [OF r] st, of 0] tr by simp
  then show "\<exists>s s'. run sc_at205 (NewDaemon 0) = Some s \<and> step AWorker s = Some s' \<and>
      trace s' = EvPop 0 # trace s \<and> peek (timeouts s) = Some 0 \<and> t (store s ! 0) < clock s"
    using r st tr by blast
qed

subsection \<open>C2: a callback is invoked at most once\<close>

text \<open>
  C2. For every timeout record created by \<^verbatim>\<open>AddTimeout\<close>, the callback is invoked at
  most once over the lifetime of the daemon. In every reachable state the trace holds
  at most one push, at most one pop and at most one callback invocation of a record
  \<open>p\<close>; a record that exists is still held by its \<^verbatim>\<open>AddTimeout\<close> call, before the
  push, or has been pushed exactly once; a pop comes after the push of the record and
  an invocation after its pop; and the transition that invokes the callback of \<open>p\<close>
  belongs to the iteration that popped \<open>p\<close>: the latest pop of the trace is the pop of
  \<open>p\<close>.
\<close>

theorem C2_callback_at_most_once:
  assumes "reachable s"
  shows "count_list (trace s) (EvFireBegin p) \<le> 1 \<and>
         count_list (trace s) (EvPop p) \<le> 1 \<and>
         count_list (trace s) (EvPush p) \<le> 1 \<and>
         (p < length (store s) \<longrightarrow>
            (\<exists>c. pending (clients s c) = Some p) \<or> count_list (trace s) (EvPush p) = 1) \<and>
         (EvPop p \<in> set (trace s) \<longrightarrow> EvPush p \<in> set (trace s)) \<and>
         (EvFireBegin p \<in> set (trace s) \<longrightarrow> EvPop p \<in> set (trace s)) \<and>
         (\<forall>a s'. step a s = Some s' \<and> trace s' = EvFireBegin p # trace s \<longrightarrow>
            last_pop (trace s) = Some p)"
proof -
  have cnt: "count_list (trace s) (EvFireBegin p) \<le> 1" "count_list (trace s) (EvPop p) \<le> 1"
    "count_list (trace s) (EvPush p) \<le> 1"
    using reachable_inv_count [OF assms] unfolding inv_count_def by blast+
  have once: "inv_once s" by (rule reachable_inv_once [OF assms])
  have O4: "EvPop p \<in> set (trace s) \<longrightarrow> EvPush p \<in> set (trace s)"
    and O5: "EvFireBegin p \<in> set (trace s) \<longrightarrow> EvPop p \<in> set (trace s)"
    and O6: "popped (wpc s) = Some p \<longrightarrow> last_pop (trace s) = Some p"
    using once unfolding inv_once_def by blast+
  have al: "p < length (store s) \<longrightarrow>
      (\<exists>c. pending (clients s c) = Some p) \<or> count_list (trace s) (EvPush p) = 1"
  proof
    assume "p < length (store s)"
    then have "(\<exists>c. pending (clients s c) = Some p) \<or> EvPush p \<in> set (trace s)"
      using reachable_inv_alloc [OF assms] unfolding inv_alloc_def by blast
    moreover have "EvPush p \<in> set (trace s) \<Longrightarrow> count_list (trace s) (EvPush p) = 1"
    proof -
      assume "EvPush p \<in> set (trace s)"
      then have "count_list (trace s) (EvPush p) \<noteq> 0" by (simp add: count_list_0_iff)
      then show ?thesis using cnt(3) by simp
    qed
    ultimately show "(\<exists>c. pending (clients s c) = Some p) \<or> count_list (trace s) (EvPush p) = 1"
      by blast
  qed
  have it: "\<forall>a s'. step a s = Some s' \<and> trace s' = EvFireBegin p # trace s \<longrightarrow>
      last_pop (trace s) = Some p"
  proof (intro allI impI)
    fix a s' assume h: "step a s = Some s' \<and> trace s' = EvFireBegin p # trace s"
    then have "wpc s = W233 p" using step_FireBegin by blast
    then show "last_pop (trace s) = Some p" using O6 by simp
  qed
  show ?thesis using cnt al O4 O5 it by blast
qed

theorem C2_witness:
  "\<exists>s. run sc_done (NewDaemon 0) = Some s \<and>
     count_list (trace s) (EvFireBegin 0) = 1 \<and> count_list (trace s) (EvPop 0) = 1 \<and>
     count_list (trace s) (EvPush 0) = 1 \<and> length (store s) = 1 \<and>
     (\<exists>s1 s2. run sc_at233 (NewDaemon 0) = Some s1 \<and> step AWorker s1 = Some s2 \<and>
        trace s2 = EvFireBegin 0 # trace s1 \<and> last_pop (trace s1) = Some 0)"
proof -
  define s where "s = the (run sc_done (NewDaemon 0))"
  have r: "run sc_done (NewDaemon 0) = Some s"
    unfolding s_def by (simp add: sc_defs eval_defs)
  have v: "count_list (trace s) (EvFireBegin 0) = 1" "count_list (trace s) (EvPop 0) = 1"
    "count_list (trace s) (EvPush 0) = 1" "length (store s) = 1"
    unfolding s_def by (simp_all add: sc_defs eval_defs)
  define s1 where "s1 = the (run sc_at233 (NewDaemon 0))"
  define s2 where "s2 = the (step AWorker s1)"
  have r1: "run sc_at233 (NewDaemon 0) = Some s1"
    unfolding s1_def by (simp add: sc_defs eval_defs)
  have st: "step AWorker s1 = Some s2"
    unfolding s2_def s1_def by (simp add: sc_defs eval_defs)
  have tr: "trace s2 = EvFireBegin 0 # trace s1"
    unfolding s2_def s1_def by (simp add: sc_defs eval_defs)
  have "last_pop (trace s1) = Some 0"
    using C2_callback_at_most_once [OF reachable_NewDaemon_run [OF r1], of 0] st tr by blast
  moreover have "count_list (trace s) (EvFireBegin 0) \<le> 1"
    using C2_callback_at_most_once [OF reachable_NewDaemon_run [OF r], of 0] by blast
  ultimately show ?thesis using r v r1 st tr by blast
qed

end
